theory Spec2Isabelle
  imports Complex_Main "HOL-Library.List_Lexorder" "HOL-Library.Char_ord" "HOL-Library.Sublist"
begin

section \<open>Data model\<close>

text \<open>
  The relay client service (\<^verbatim>\<open>ClientService\<close>) works on protocol events. An event is an
  immutable value; the fields are those of the source's \<^verbatim>\<open>NEvent\<close>. The field \<^verbatim>\<open>id\<close> is
  named \<open>id_evt\<close> here, since \<open>id\<close> is the identity function of HOL. Identifiers are
  strings and are compared as JavaScript compares strings: lexicographically by code unit.
\<close>

record event =
  id_evt :: string
  pubkey :: string
  created_at :: int
  kind :: int
  tags :: "string list list"
  content :: string
  sig :: string

text \<open>\<^verbatim>\<open>type TTimelineRef = [string, number]\<close>: an event id and its timestamp.\<close>

type_synonym TTimelineRef = "string \<times> int"

text \<open>
  \<^verbatim>\<open>events.sort((a, b) => b.created_at - a.created_at)\<close>: the stable sort of the
  JavaScript array, descending by \<^verbatim>\<open>created_at\<close>. \<open>sort_key\<close> is a stable insertion sort.
\<close>

definition sort_desc :: "event list \<Rightarrow> event list" where
  "sort_desc evs = sort_key (\<lambda>e. - created_at e) evs"

section \<open>The replaceable event cache (\<^verbatim>\<open>addEventToCache\<close>)\<close>

text \<open>
  The coordinate of a replaceable event. The source builds the string
  \<^verbatim>\<open>kind:pubkey:d\<close>; the model keeps the three components.
\<close>

type_synonym coordinate = "int \<times> string \<times> string"

text \<open>
  The functions of \<^verbatim>\<open>@/lib/event\<close> that \<^verbatim>\<open>addEventToCache\<close> calls are not among the
  source files. They are parameters of the model, gathered in one record: the test of a
  kind for being replaceable, the coordinate of an event, and the comparison of two
  events.
\<close>

record event_lib =
  isReplaceableEvent :: "int \<Rightarrow> bool"
  getReplaceableCoordinateFromEvent :: "event \<Rightarrow> coordinate"
  compareEvents :: "event \<Rightarrow> event \<Rightarrow> int"

text \<open>
  Modelled from the spec: the three functions as the spec describes them. The
  replaceable kinds are profile metadata, follow lists, relay lists and the other kinds
  of their range, and the parameterized replaceable kinds. The coordinate is the tuple
  (kind, pubkey, optional d-tag); the d-tag is the value of the first tag named \<^verbatim>\<open>d\<close>,
  the empty string when there is none. The comparison retains the instance with the
  highest \<^verbatim>\<open>created_at\<close> and breaks ties by the ordering rule of the timeline (ascending
  id first): the result is positive when the first event is the one to keep.
\<close>

definition spec_isReplaceableEvent :: "int \<Rightarrow> bool" where
  "spec_isReplaceableEvent k =
     (k = 0 \<or> k = 3 \<or> (10000 \<le> k \<and> k < 20000) \<or> (30000 \<le> k \<and> k < 40000))"

definition tagNameEquals :: "string \<Rightarrow> string list \<Rightarrow> bool" where
  "tagNameEquals n t = (case t of [] \<Rightarrow> False | x # _ \<Rightarrow> x = n)"

definition spec_getReplaceableCoordinateFromEvent :: "event \<Rightarrow> coordinate" where
  "spec_getReplaceableCoordinateFromEvent e =
     (kind e, pubkey e,
      (case find (tagNameEquals ''d'') (tags e) of
         Some (_ # v # _) \<Rightarrow> v
       | _ \<Rightarrow> ''''))"

definition spec_compareEvents :: "event \<Rightarrow> event \<Rightarrow> int" where
  "spec_compareEvents a b =
     (if created_at a \<noteq> created_at b then created_at a - created_at b
      else if id_evt a \<noteq> id_evt b then (if id_evt a < id_evt b then 1 else - 1)
      else 0)"

definition spec_lib :: event_lib where
  "spec_lib =
     \<lparr>isReplaceableEvent = spec_isReplaceableEvent,
      getReplaceableCoordinateFromEvent = spec_getReplaceableCoordinateFromEvent,
      compareEvents = spec_compareEvents\<rparr>"

text \<open>
  The two caches \<^verbatim>\<open>addEventToCache\<close> writes: the event cache of the data loader, keyed by
  id, and the replaceable event cache, keyed by coordinate. Both are LRU caches with an
  expiry time in the source; the model is the map they hold while no entry expires and
  none is evicted.
\<close>

record caches =
  eventCacheMap :: "string \<rightharpoonup> event option"
  replaceableEventCacheMap :: "coordinate \<rightharpoonup> event"

text \<open>
  The event cache maps an id to the settled promise of the data loader: an event, or
  \<^verbatim>\<open>undefined\<close> (\<open>None\<close>) for an id that was looked up and not found.
  \<^verbatim>\<open>DataLoader.prime\<close> stores a value only for a key that has none.
\<close>

definition prime ::
  "(string \<rightharpoonup> event option) \<Rightarrow> string \<Rightarrow> event \<Rightarrow> (string \<rightharpoonup> event option)" where
  "prime m k v = (case m k of None \<Rightarrow> m(k \<mapsto> Some v) | Some _ \<Rightarrow> m)"

text \<open>\<^verbatim>\<open>addEventToCache\<close>, over the functions \<open>lib\<close> of \<^verbatim>\<open>@/lib/event\<close>.\<close>

definition addEventToCache :: "event_lib \<Rightarrow> caches \<Rightarrow> event \<Rightarrow> caches" where
  "addEventToCache lib c ev =
     (let c1 = c\<lparr>eventCacheMap := prime (eventCacheMap c) (id_evt ev) ev\<rparr>
      in if isReplaceableEvent lib (kind ev) then
           (let coordinate = getReplaceableCoordinateFromEvent lib ev
            in case replaceableEventCacheMap c1 coordinate of
                 None \<Rightarrow> c1\<lparr>replaceableEventCacheMap := (replaceableEventCacheMap c1)(coordinate \<mapsto> ev)\<rparr>
               | Some cachedEvent \<Rightarrow>
                   if compareEvents lib ev cachedEvent > 0
                   then c1\<lparr>replaceableEventCacheMap := (replaceableEventCacheMap c1)(coordinate \<mapsto> ev)\<rparr>
                   else c1)
         else c1)"

section \<open>Relay lists (\<^verbatim>\<open>fetchRelayList\<close>, \<^verbatim>\<open>fetchRelayLists\<close>)\<close>

definition BIG_RELAY_URLS :: "string list" where
  "BIG_RELAY_URLS =
     [''wss://relay.damus.io/'', ''wss://relay.nostr.band/'',
      ''wss://relay.primal.net/'', ''wss://nos.lol/'']"

text \<open>\<^verbatim>\<open>kinds.RelayList\<close> of the protocol library.\<close>

definition kinds_RelayList :: int where
  "kinds_RelayList = 10002"

text \<open>
  \<^verbatim>\<open>TRelayList\<close>, with the fields \<^verbatim>\<open>write\<close> and \<^verbatim>\<open>read\<close> named \<open>write_urls\<close> and
  \<open>read_urls\<close> (\<open>write\<close> is a command of Isar); an original relay is a URL with its scope.
\<close>

record TRelayList =
  write_urls :: "string list"
  read_urls :: "string list"
  originalRelays :: "(string \<times> string) list"

text \<open>
  What the persistent store answers for one key: \<^verbatim>\<open>undefined\<close> (unknown), \<^verbatim>\<open>null\<close>
  (known to be absent) or an event.
\<close>

datatype stored = Undefined | Null | Stored event

text \<open>What the data loader's \<^verbatim>\<open>loadMany\<close> holds for one key: an event, \<^verbatim>\<open>null\<close> or an error.\<close>

datatype loaded = Loaded event | LoadedNull | LoadError

text \<open>
  Modelled from the spec: \<^verbatim>\<open>indexedDb.getManyReplaceableEvents\<close> of
  \<^verbatim>\<open>./indexed-db.service\<close> is not among the source files. By its contract it returns an
  array aligned to the input, one answer of the store per public key.
\<close>

definition getManyReplaceableEvents ::
  "(string \<Rightarrow> int \<Rightarrow> stored) \<Rightarrow> string list \<Rightarrow> int \<Rightarrow> stored list" where
  "getManyReplaceableEvents db pubkeys k = map (\<lambda>p. db p k) pubkeys"

text \<open>
  A JavaScript \<^verbatim>\<open>Map\<close> as an association list in insertion order: \<^verbatim>\<open>set\<close> on a key
  already present replaces the value in place.
\<close>

fun map_set :: "('k \<times> 'v) list \<Rightarrow> 'k \<Rightarrow> 'v \<Rightarrow> ('k \<times> 'v) list" where
  "map_set [] k v = [(k, v)]"
| "map_set ((k', v') # m) k v = (if k' = k then (k, v) # m else (k', v') # map_set m k v)"

text \<open>The loop that records, for every key the store does not know, its last index.\<close>

fun nonExisting :: "string list \<Rightarrow> stored list \<Rightarrow> nat \<Rightarrow> (string \<times> nat) list \<Rightarrow> (string \<times> nat) list" where
  "nonExisting [] evs i m = m"
| "nonExisting (p # ps) evs i m =
     nonExisting ps evs (Suc i)
       (if i < length evs \<and> evs ! i \<noteq> Undefined then m else map_set m p i)"

text \<open>
  The loop over the loaded results: an event is written at the index recorded for its
  own public key. The index is within the array, since the array is aligned to the keys;
  JavaScript would extend the array otherwise, which the model writes out with padding.
\<close>

definition assign :: "stored list \<Rightarrow> nat \<Rightarrow> stored \<Rightarrow> stored list" where
  "assign evs i v =
     (if i < length evs then evs[i := v]
      else evs @ replicate (i - length evs) Undefined @ [v])"

fun placeLoaded :: "(string \<times> nat) list \<Rightarrow> loaded list \<Rightarrow> stored list \<Rightarrow> stored list" where
  "placeLoaded m [] evs = evs"
| "placeLoaded m (Loaded e # ls) evs =
     placeLoaded m ls
       (case map_of m (pubkey e) of None \<Rightarrow> evs | Some index \<Rightarrow> assign evs index (Stored e))"
| "placeLoaded m (_ # ls) evs = placeLoaded m ls evs"

definition fetchReplaceableEventsFromBigRelays ::
  "(string \<Rightarrow> int \<Rightarrow> stored) \<Rightarrow> (string \<Rightarrow> int \<Rightarrow> loaded) \<Rightarrow> string list \<Rightarrow> int \<Rightarrow> stored list" where
  "fetchReplaceableEventsFromBigRelays db load pubkeys k =
     (let evs = getManyReplaceableEvents db pubkeys k;
          nonExistingPubkeyIndexMap = nonExisting pubkeys evs 0 [];
          newEvents = map (\<lambda>(p, _). load p k) nonExistingPubkeyIndexMap
      in placeLoaded nonExistingPubkeyIndexMap newEvents evs)"

definition defaultRelayList :: TRelayList where
  "defaultRelayList = \<lparr>write_urls = BIG_RELAY_URLS, read_urls = BIG_RELAY_URLS, originalRelays = []\<rparr>"

text \<open>
  \<^verbatim>\<open>fetchRelayLists\<close>. \<^verbatim>\<open>getRelayListFromEvent\<close> of \<^verbatim>\<open>@/lib/event-metadata\<close> is not among
  the source files and is a parameter; its result type is \<^verbatim>\<open>TRelayList\<close>.
\<close>

definition fetchRelayLists ::
  "(event \<Rightarrow> TRelayList) \<Rightarrow> (string \<Rightarrow> int \<Rightarrow> stored) \<Rightarrow> (string \<Rightarrow> int \<Rightarrow> loaded) \<Rightarrow>
   string list \<Rightarrow> TRelayList list" where
  "fetchRelayLists getRelayListFromEvent db load pubkeys =
     map (\<lambda>ev. case ev of Stored e \<Rightarrow> getRelayListFromEvent e | _ \<Rightarrow> defaultRelayList)
       (fetchReplaceableEventsFromBigRelays db load pubkeys kinds_RelayList)"

text \<open>
  \<^verbatim>\<open>fetchRelayList\<close> takes the first element of the array by destructuring; on an empty
  array the result would be \<^verbatim>\<open>undefined\<close>, which is \<open>None\<close> here.
\<close>

definition fetchRelayList ::
  "(event \<Rightarrow> TRelayList) \<Rightarrow> (string \<Rightarrow> int \<Rightarrow> stored) \<Rightarrow> (string \<Rightarrow> int \<Rightarrow> loaded) \<Rightarrow>
   string \<Rightarrow> TRelayList option" where
  "fetchRelayList getRelayListFromEvent db load p =
     (case fetchRelayLists getRelayListFromEvent db load [p] of
        [] \<Rightarrow> None
      | relayList # _ \<Rightarrow> Some relayList)"

text \<open>
  No relay list event is found for a public key: the store has none, and none of the
  events loaded for the requested keys is an event of that key.
\<close>

definition noRelayListEvent ::
  "(string \<Rightarrow> int \<Rightarrow> stored) \<Rightarrow> (string \<Rightarrow> int \<Rightarrow> loaded) \<Rightarrow> string list \<Rightarrow> string \<Rightarrow> bool" where
  "noRelayListEvent db load pubkeys p =
     ((case db p kinds_RelayList of Stored _ \<Rightarrow> False | _ \<Rightarrow> True) \<and>
      list_all (\<lambda>q. case load q kinds_RelayList of Loaded e \<Rightarrow> pubkey e \<noteq> p | _ \<Rightarrow> True) pubkeys)"

text \<open>The index map only holds indices of the key list, each under its own key.\<close>

definition idx_ok :: "string list \<Rightarrow> (string \<times> nat) list \<Rightarrow> bool" where
  "idx_ok ps m = (\<forall>(p, i) \<in> set m. i < length ps \<and> ps ! i = p)"

text \<open>Two relay list events of one author, used as concrete inputs below.\<close>

definition ev1 :: event where
  "ev1 = \<lparr>id_evt = ''a1'', pubkey = ''p1'', created_at = 100, kind = 10002,
          tags = [[''d'', ''x'']], content = '''', sig = ''''\<rparr>"

definition ev2 :: event where
  "ev2 = \<lparr>id_evt = ''b2'', pubkey = ''p1'', created_at = 200, kind = 10002,
          tags = [[''d'', ''x'']], content = '''', sig = ''''\<rparr>"

section \<open>The multi-timeline aggregator (\<^verbatim>\<open>subscribeTimeline\<close>)\<close>

text \<open>
  The local variables of one \<^verbatim>\<open>subscribeTimeline\<close> call, shared by the callbacks it hands
  to its sub-timelines. The caller's \<^verbatim>\<open>onEvents\<close> and \<^verbatim>\<open>onNew\<close> are variables that the
  closer overwrites with functions that do nothing: \<open>cleared_agg\<close> says that this has
  happened, and the two logs record the calls that reached the caller's functions.
  \<open>closer_calls\<close> records the calls of the closers of the sub-timelines, each by the
  index of its sub-timeline in \<^verbatim>\<open>subs\<close>.
  (\<^verbatim>\<open>eosedCount\<close> and \<^verbatim>\<open>events\<close> carry the suffix \<open>_agg\<close>: \<^verbatim>\<open>subscribe\<close> and
  \<^verbatim>\<open>_subscribeTimeline\<close> have variables of the same names.)
\<close>

record agg_state =
  newEventIdSet :: "string set"
  eventIdSet :: "string set"
  events_agg :: "event list"
  eosedCount_agg :: nat
  cleared_agg :: bool
  onEvents_calls :: "(event list \<times> bool) list"
  onNew_calls :: "event list"
  closer_calls :: "nat list"

definition agg_init :: agg_state where
  "agg_init = \<lparr>newEventIdSet = {}, eventIdSet = {}, events_agg = [], eosedCount_agg = 0,
               cleared_agg = False, onEvents_calls = [], onNew_calls = [],
               closer_calls = []\<rparr>"

definition call_onEvents :: "agg_state \<Rightarrow> event list \<Rightarrow> bool \<Rightarrow> agg_state" where
  "call_onEvents s evs e =
     (if cleared_agg s then s else s\<lparr>onEvents_calls := onEvents_calls s @ [(evs, e)]\<rparr>)"

definition call_onNew :: "agg_state \<Rightarrow> event \<Rightarrow> agg_state" where
  "call_onNew s evt = (if cleared_agg s then s else s\<lparr>onNew_calls := onNew_calls s @ [evt]\<rparr>)"

text \<open>The \<^verbatim>\<open>forEach\<close> that appends the events whose id is not in the id set yet.\<close>

fun merge_events :: "event list \<Rightarrow> string set \<times> event list \<Rightarrow> string set \<times> event list" where
  "merge_events [] acc = acc"
| "merge_events (evt # evs) (ids, es) =
     merge_events evs
       (if id_evt evt \<in> ids then (ids, es) else (insert (id_evt evt) ids, es @ [evt]))"

text \<open>
  The \<^verbatim>\<open>onEvents\<close> callback given to a sub-timeline whose filter has the limit \<open>limit\<close>;
  \<open>requestCount\<close> is the number of sub-requests.
\<close>

definition sub_onEvents :: "nat \<Rightarrow> nat \<Rightarrow> agg_state \<Rightarrow> event list \<Rightarrow> bool \<Rightarrow> agg_state" where
  "sub_onEvents requestCount limit s evs eosed' =
     (let threshold = requestCount div 2;
          c = (if eosed' then eosedCount_agg s + 1 else eosedCount_agg s);
          merged = merge_events evs (eventIdSet s, events_agg s);
          es = (if length evs > 0 then take limit (sort_desc (snd merged)) else snd merged);
          ids = (if length evs > 0 then set (map id_evt es) else fst merged);
          s1 = s\<lparr>eosedCount_agg := c, eventIdSet := ids, events_agg := es\<rparr>
      in if c \<ge> threshold then call_onEvents s1 es (c \<ge> requestCount) else s1)"

definition sub_onNew :: "agg_state \<Rightarrow> event \<Rightarrow> agg_state" where
  "sub_onNew s evt =
     (if id_evt evt \<in> newEventIdSet s then s
      else call_onNew (s\<lparr>newEventIdSet := insert (id_evt evt) (newEventIdSet s)\<rparr>) evt)"

text \<open>
  The closer of the aggregator: \<^verbatim>\<open>onEvents\<close> and \<^verbatim>\<open>onNew\<close> are overwritten, then the
  closer of every sub-timeline is called, in the order of \<^verbatim>\<open>subs\<close>, which has one entry
  for each of the \<open>requestCount\<close> sub-requests. It does so on every call.
\<close>

definition agg_closer :: "nat \<Rightarrow> agg_state \<Rightarrow> agg_state" where
  "agg_closer requestCount s =
     s\<lparr>cleared_agg := True, closer_calls := closer_calls s @ [0..<requestCount]\<rparr>"

text \<open>
  What can happen to the aggregator: a sub-timeline reports a batch (with the limit of
  its filter, the events and its flag), a sub-timeline reports a new event, or the caller
  runs the closer.
\<close>

datatype agg_action = SubEvents nat "event list" bool | SubNew event | Closer

fun agg_step :: "nat \<Rightarrow> agg_state \<Rightarrow> agg_action \<Rightarrow> agg_state" where
  "agg_step n s (SubEvents limit evs e) = sub_onEvents n limit s evs e"
| "agg_step n s (SubNew evt) = sub_onNew s evt"
| "agg_step n s Closer = agg_closer n s"

definition agg_run :: "nat \<Rightarrow> agg_action list \<Rightarrow> agg_state" where
  "agg_run n tr = foldl (agg_step n) agg_init tr"

text \<open>The number of sub-timeline reports in a trace that carry the end-of-stored-events flag.\<close>

fun is_eose_report :: "agg_action \<Rightarrow> bool" where
  "is_eose_report (SubEvents _ _ e) = e"
| "is_eose_report _ = False"

definition eose_reports :: "agg_action list \<Rightarrow> nat" where
  "eose_reports tr = length (filter is_eose_report tr)"

text \<open>A note of another author, used as a concrete input below.\<close>

definition ev3 :: event where
  "ev3 = \<lparr>id_evt = ''c3'', pubkey = ''p2'', created_at = 150, kind = 1,
          tags = [], content = ''hello'', sig = ''''\<rparr>"

section \<open>Publishing to many relays (\<^verbatim>\<open>publishEvent\<close>)\<close>

text \<open>
  \<^verbatim>\<open>Array.from(new Set(urls))\<close>: the distinct elements, each at its first occurrence.
\<close>

fun uniq :: "'a list \<Rightarrow> 'a list" where
  "uniq [] = []"
| "uniq (x # xs) = x # filter (\<lambda>y. y \<noteq> x) (uniq xs)"

text \<open>
  A value caught from a rejected promise: an \<^verbatim>\<open>Error\<close> object with its message, or any
  other value, given by its \<^verbatim>\<open>String(...)\<close>.
\<close>

datatype js_error = ErrorObj string | Thrown string

fun error_text :: "js_error \<Rightarrow> string" where
  "error_text (ErrorObj m) = m"
| "error_text (Thrown v) = v"

text \<open>
  How the work for one relay ends: \<^verbatim>\<open>ensureRelay\<close> rejects (no connection);
  \<^verbatim>\<open>relay.publish\<close> resolves; or \<^verbatim>\<open>relay.publish\<close> rejects with an error, where the flag
  says whether the authenticated second publish, if the code makes one, resolves.
\<close>

datatype relay_outcome = NoRelay | PublishOk | PublishError js_error bool

text \<open>
  The variables of the promise executor. \<open>settled\<close> is the state of the promise: the
  first \<^verbatim>\<open>resolve\<close> or \<^verbatim>\<open>reject\<close> wins and later ones do nothing. \<open>emitted\<close> counts the
  calls of \<^verbatim>\<open>emitNewEvent\<close>, \<open>seenOn\<close> lists the relays recorded by \<^verbatim>\<open>trackEventSeenOn\<close>.
\<close>

datatype publish_result = Resolved | Rejected "string list"

record publish_state =
  successCount :: nat
  finishedCount :: nat
  errors :: "(string \<times> js_error) list"
  settled :: "publish_result option"
  emitted :: nat
  seenOn :: "string list"

definition publish_init :: publish_state where
  "publish_init = \<lparr>successCount = 0, finishedCount = 0, errors = [], settled = None,
                   emitted = 0, seenOn = []\<rparr>"

definition settle :: "publish_result \<Rightarrow> publish_state \<Rightarrow> publish_state" where
  "settle r s = (case settled s of None \<Rightarrow> s\<lparr>settled := Some r\<rparr> | Some _ \<Rightarrow> s)"

text \<open>The message of one entry of the aggregate error.\<close>

definition error_line :: "string \<times> js_error \<Rightarrow> string" where
  "error_line ue = fst ue @ '': '' @ error_text (snd ue)"

text \<open>
  The \<^verbatim>\<open>finally\<close> handler; \<open>n\<close> is \<^verbatim>\<open>uniqueRelayUrls.length\<close>. The comparison
  \<^verbatim>\<open>successCount >= uniqueRelayUrls.length / 3\<close> is one of numbers, not of integers.
\<close>

definition finally_handler :: "nat \<Rightarrow> publish_state \<Rightarrow> publish_state" where
  "finally_handler n s =
     (let isSuccess = (real (successCount s) \<ge> real n / 3);
          s1 = (if isSuccess then settle Resolved (s\<lparr>emitted := emitted s + 1\<rparr>) else s);
          s2 = s1\<lparr>finishedCount := finishedCount s1 + 1\<rparr>
      in if finishedCount s2 \<ge> n then settle (Rejected (map error_line (errors s2))) s2 else s2)"

text \<open>The test of the \<^verbatim>\<open>catch\<close> handler that leads to the authenticated second publish.\<close>

fun auth_retry :: "bool \<Rightarrow> js_error \<Rightarrow> bool" where
  "auth_retry signer (ErrorObj m) = (prefix ''auth-required'' m \<and> signer)"
| "auth_retry signer (Thrown v) = False"

text \<open>
  The work for one relay, run when its outcome is known. Without a connection the
  \<^verbatim>\<open>async\<close> function rejects before the chain of handlers exists, and none of them runs.
  The result of the authenticated second publish is returned from the \<^verbatim>\<open>catch\<close> handler
  and not looked at: it neither counts as a success nor enters \<^verbatim>\<open>errors\<close>.
\<close>

fun publish_step :: "nat \<Rightarrow> bool \<Rightarrow> publish_state \<Rightarrow> string \<times> relay_outcome \<Rightarrow> publish_state" where
  "publish_step n signer s (url, NoRelay) = s"
| "publish_step n signer s (url, PublishOk) =
     finally_handler n (s\<lparr>seenOn := seenOn s @ [url], successCount := successCount s + 1\<rparr>)"
| "publish_step n signer s (url, PublishError err retry_ok) =
     (if auth_retry signer err then finally_handler n s
      else finally_handler n (s\<lparr>errors := errors s @ [(url, err)]\<rparr>))"

text \<open>
  \<^verbatim>\<open>publishEvent\<close> over the relays \<open>relayUrls\<close>, given the outcomes in the order in which
  the relays finish; relays still pending are not in the list.
\<close>

definition publishEvent :: "bool \<Rightarrow> string list \<Rightarrow> (string \<times> relay_outcome) list \<Rightarrow> publish_state" where
  "publishEvent signer relayUrls outcomes =
     foldl (publish_step (length (uniq relayUrls)) signer) publish_init outcomes"

text \<open>The number of acknowledgements among the outcomes.\<close>

definition acks :: "(string \<times> relay_outcome) list \<Rightarrow> nat" where
  "acks outcomes = length (filter (\<lambda>uo. snd uo = PublishOk) outcomes)"

text \<open>
  An outcome is plain when the relay was connected and its publish was acknowledged or
  was rejected with an error that does not lead to an authenticated second publish.
\<close>

fun plain :: "bool \<Rightarrow> string \<times> relay_outcome \<Rightarrow> bool" where
  "plain signer (url, NoRelay) = False"
| "plain signer (url, PublishOk) = True"
| "plain signer (url, PublishError err retry_ok) = (\<not> auth_retry signer err)"

text \<open>The failures among plain outcomes, as the entries of the aggregate error.\<close>

fun failure_lines :: "(string \<times> relay_outcome) list \<Rightarrow> string list" where
  "failure_lines [] = []"
| "failure_lines ((url, PublishError err retry_ok) # os) = error_line (url, err) # failure_lines os"
| "failure_lines (_ # os) = failure_lines os"

text \<open>Nine relays, of which the third and the seventh acknowledge.\<close>

definition nine_relays :: "string list" where
  "nine_relays = [''r1'', ''r2'', ''r3'', ''r4'', ''r5'', ''r6'', ''r7'', ''r8'', ''r9'']"

definition two_of_nine :: "(string \<times> relay_outcome) list" where
  "two_of_nine =
     map (\<lambda>u. (u, if u = ''r3'' \<or> u = ''r7'' then PublishOk
                   else PublishError (ErrorObj ''blocked'') False)) nine_relays"

section \<open>The multi-relay subscription (\<^verbatim>\<open>subscribe\<close>)\<close>

text \<open>
  One entry of \<^verbatim>\<open>subPromises\<close>: a call of \<^verbatim>\<open>startSub\<close> for a relay, with what has
  happened to it. The call is waiting for \<^verbatim>\<open>ensureRelay\<close> (\<open>Connecting\<close>), has subscribed
  on the relay (\<open>Open\<close>), or has found no connection (\<open>Failed\<close>). \<open>sub_eosed\<close>: the
  relay's sub-subscription has signalled the end of its stored events. \<open>sub_closed\<close>: it
  has been closed, by the relay or by \<^verbatim>\<open>close\<close>. \<open>close_requested\<close>: how many times
  \<^verbatim>\<open>close\<close> has attached \<^verbatim>\<open>sub.close()\<close> to the promise while it was pending. \<open>auth_pending\<close>:
  \<^verbatim>\<open>relay.auth\<close> has been started from the \<^verbatim>\<open>onclose\<close> handler and has not settled.
\<close>

datatype sub_status = Connecting | Open | Failed

record relay_sub =
  sub_url :: string
  sub_status :: sub_status
  sub_eosed :: bool
  sub_closed :: bool
  close_requested :: nat
  auth_pending :: bool

text \<open>The calls of the caller's callbacks, in the order in which they are made.\<close>

datatype callback =
  OnEvent event | OnEose bool | OnClose string string | OnAllClose "string list" | StartLogin

text \<open>
  The variables of one \<^verbatim>\<open>subscribe\<close> call. \<open>hasAuthed\<close> holds the relays whose
  \<^verbatim>\<open>hasAuthed\<close> variable is true; \<open>listening\<close> says whether the handler of \<^verbatim>\<open>newEvent\<close> is
  attached to the client.
\<close>

record subscription =
  knownIds :: "string set"
  startedCount :: nat
  eosedCount :: nat
  eosed :: bool
  closedCount :: nat
  closeReasons :: "string list"
  hasAuthed :: "string set"
  subPromises :: "relay_sub list"
  listening :: bool
  calls :: "callback list"

definition call :: "callback \<Rightarrow> subscription \<Rightarrow> subscription" where
  "call c s = s\<lparr>calls := calls s @ [c]\<rparr>"

definition upd_sub :: "nat \<Rightarrow> (relay_sub \<Rightarrow> relay_sub) \<Rightarrow> subscription \<Rightarrow> subscription" where
  "upd_sub i f s = s\<lparr>subPromises := (subPromises s)[i := f (subPromises s ! i)]\<rparr>"

text \<open>\<^verbatim>\<open>startSub\<close> up to its first \<^verbatim>\<open>await\<close>: the counter, and a pending promise.\<close>

definition startSub :: "string \<Rightarrow> subscription \<Rightarrow> subscription" where
  "startSub url s =
     s\<lparr>startedCount := startedCount s + 1,
       subPromises := subPromises s @
         [\<lparr>sub_url = url, sub_status = Connecting, sub_eosed = False, sub_closed = False,
           close_requested = 0, auth_pending = False\<rparr>]\<rparr>"

text \<open>
  \<^verbatim>\<open>subscribe\<close>: one \<^verbatim>\<open>startSub\<close> per distinct relay, then the listener is attached.
\<close>

definition subscribe :: "string list \<Rightarrow> subscription" where
  "subscribe urls =
     fold startSub (uniq urls)
       \<lparr>knownIds = {}, startedCount = 0, eosedCount = 0, eosed = False, closedCount = 0,
        closeReasons = [], hasAuthed = {}, subPromises = [], listening = True, calls = []\<rparr>"

text \<open>
  The three statements that count one end of stored events. They stand in the
  \<^verbatim>\<open>oneose\<close> handler after \<^verbatim>\<open>if (eosed) return\<close> and, for a relay without connection,
  inside \<^verbatim>\<open>if (!eosed)\<close>.
\<close>

definition count_eose :: "subscription \<Rightarrow> subscription" where
  "count_eose s =
     (if eosed s then s
      else let c = eosedCount s + 1; e = (c \<ge> startedCount s)
           in call (OnEose e) (s\<lparr>eosedCount := c, eosed := e\<rparr>))"

text \<open>\<^verbatim>\<open>ensureRelay\<close> has failed: the branch \<^verbatim>\<open>if (!relay)\<close>.\<close>

definition connect_failed :: "nat \<Rightarrow> subscription \<Rightarrow> subscription" where
  "connect_failed i s = count_eose (upd_sub i (\<lambda>p. p\<lparr>sub_status := Failed\<rparr>) s)"

text \<open>
  The last statements of the \<^verbatim>\<open>onclose\<close> handler, under the comment
  \<^verbatim>\<open>// close the subscription\<close>: the close is counted and reported to the caller.
\<close>

definition report_close :: "string \<Rightarrow> string \<Rightarrow> subscription \<Rightarrow> subscription" where
  "report_close url reason s =
     (let s1 = call (OnClose url reason)
                 (s\<lparr>closedCount := closedCount s + 1,
                    closeReasons := closeReasons s @ [reason]\<rparr>)
      in if closedCount s1 \<ge> startedCount s1
         then call (OnAllClose (closeReasons s1)) s1 else s1)"

text \<open>
  \<^verbatim>\<open>sub.close()\<close> on the sub-subscription of promise \<open>i\<close>. The relay library marks the
  sub-subscription closed and then runs its \<^verbatim>\<open>onclose\<close> handler with the reason
  \<^verbatim>\<open>closed by caller\<close>, on every call. That reason does not start with
  \<^verbatim>\<open>auth-required\<close>, so the handler goes to its last statements.
\<close>

definition sub_close :: "nat \<Rightarrow> subscription \<Rightarrow> subscription" where
  "sub_close i s =
     report_close (sub_url (subPromises s ! i)) ''closed by caller''
       (upd_sub i (\<lambda>p. p\<lparr>sub_closed := True\<rparr>) s)"

text \<open>
  \<^verbatim>\<open>ensureRelay\<close> has succeeded and \<^verbatim>\<open>relay.subscribe\<close> has returned the sub-subscription.
  Every \<^verbatim>\<open>sub.close()\<close> that \<^verbatim>\<open>close\<close> has attached to the promise in the meantime runs as
  soon as the promise is resolved; \<open>close_requested\<close> counts them.
\<close>

definition connect_ok :: "nat \<Rightarrow> subscription \<Rightarrow> subscription" where
  "connect_ok i s =
     (sub_close i ^^ close_requested (subPromises s ! i))
       (upd_sub i (\<lambda>p. p\<lparr>sub_status := Open, close_requested := 0\<rparr>) s)"

text \<open>
  A relay sends an event. The relay connection first asks \<^verbatim>\<open>alreadyHaveEvent\<close> with the
  id, which also records the id; when the answer is no and the event passes the
  connection's own checks (\<open>valid\<close>), it calls \<^verbatim>\<open>onevent\<close>.
\<close>

definition relay_event :: "event \<Rightarrow> bool \<Rightarrow> subscription \<Rightarrow> subscription" where
  "relay_event evt valid s =
     (if id_evt evt \<in> knownIds s then s
      else let s1 = s\<lparr>knownIds := insert (id_evt evt) (knownIds s)\<rparr>
           in if valid then call (OnEvent evt) s1 else s1)"

text \<open>The \<^verbatim>\<open>oneose\<close> handler of a sub-subscription.\<close>

definition relay_oneose :: "nat \<Rightarrow> subscription \<Rightarrow> subscription" where
  "relay_oneose i s = count_eose (upd_sub i (\<lambda>p. p\<lparr>sub_eosed := True\<rparr>) s)"

text \<open>
  The \<^verbatim>\<open>onclose\<close> handler of a sub-subscription, with the reason given by the relay;
  \<open>signer\<close> says whether the client has a signer at that moment, \<open>startLogin\<close> whether the
  caller has passed that callback.
\<close>

definition relay_onclose :: "bool \<Rightarrow> nat \<Rightarrow> string \<Rightarrow> bool \<Rightarrow> subscription \<Rightarrow> subscription" where
  "relay_onclose startLogin i reason signer s =
     (let url = sub_url (subPromises s ! i);
          s0 = upd_sub i (\<lambda>p. p\<lparr>sub_closed := True\<rparr>) s
      in if prefix ''auth-required'' reason \<and> url \<notin> hasAuthed s \<and> signer
         then upd_sub i (\<lambda>p. p\<lparr>auth_pending := True\<rparr>) s0
         else if prefix ''auth-required'' reason \<and> url \<notin> hasAuthed s \<and> startLogin
         then call StartLogin s0
         else report_close url reason s0)"

text \<open>\<^verbatim>\<open>relay.auth\<close> has resolved: the \<^verbatim>\<open>then\<close> handler.\<close>

definition auth_ok :: "nat \<Rightarrow> subscription \<Rightarrow> subscription" where
  "auth_ok i s =
     (let url = sub_url (subPromises s ! i);
          s1 = (upd_sub i (\<lambda>p. p\<lparr>auth_pending := False\<rparr>) s)\<lparr>hasAuthed := insert url (hasAuthed s)\<rparr>
      in if \<not> eosed s1 then startSub url s1 else s1)"

text \<open>\<^verbatim>\<open>relay.auth\<close> has been rejected: the \<^verbatim>\<open>catch\<close> handler ignores it.\<close>

definition auth_failed :: "nat \<Rightarrow> subscription \<Rightarrow> subscription" where
  "auth_failed i s = upd_sub i (\<lambda>p. p\<lparr>auth_pending := False\<rparr>) s"

text \<open>
  \<^verbatim>\<open>handleNewEventFromInternal\<close>, for an event announced on the client's event bus;
  \<open>matchFilters\<close> is the test of the event against the filters of the subscription.
\<close>

definition handleNewEventFromInternal :: "(event \<Rightarrow> bool) \<Rightarrow> event \<Rightarrow> subscription \<Rightarrow> subscription" where
  "handleNewEventFromInternal matchFilters evt s =
     (if \<not> matchFilters evt then s
      else if id_evt evt \<in> knownIds s then s
      else call (OnEvent evt) (s\<lparr>knownIds := insert (id_evt evt) (knownIds s)\<rparr>))"

text \<open>
  \<^verbatim>\<open>close\<close>: the listener is removed at once. Then \<^verbatim>\<open>sub.close()\<close> is attached to every
  promise that \<^verbatim>\<open>subPromises\<close> holds at that moment, in order: for a promise already
  resolved with a sub-subscription it runs before anything else can arrive; for a pending
  promise it waits for the connection; a promise resolved without a connection holds an
  object whose \<^verbatim>\<open>close\<close> does nothing. Nothing else is changed: the callbacks of the
  caller stay in place, and a promise pushed later is not reached.
\<close>

definition close_promise :: "nat \<Rightarrow> subscription \<Rightarrow> subscription" where
  "close_promise i s =
     (case sub_status (subPromises s ! i) of
        Connecting \<Rightarrow> upd_sub i (\<lambda>p. p\<lparr>close_requested := close_requested p + 1\<rparr>) s
      | Open \<Rightarrow> sub_close i s
      | Failed \<Rightarrow> s)"

definition close :: "subscription \<Rightarrow> subscription" where
  "close s = fold close_promise [0..<length (subPromises s)] (s\<lparr>listening := False\<rparr>)"

text \<open>
  What can happen to a subscription. The number is the index of the promise in
  \<^verbatim>\<open>subPromises\<close>. An occurrence that the state does not allow changes nothing: a connection
  result needs a pending promise, an event an open sub-subscription that is not closed,
  the end of stored events an open sub-subscription that has not signalled it yet (it
  signals it once), a close by the relay an open sub-subscription, the result of an
  authentication a pending one; the bus reaches the handler while it is attached.
\<close>

datatype sub_action =
    ConnectOk nat | ConnectFail nat
  | RelayEvent nat event bool | RelayEose nat | RelayClosed nat string bool
  | AuthOk nat | AuthFail nat
  | BusEvent event | Close

definition sub_at :: "subscription \<Rightarrow> nat \<Rightarrow> (relay_sub \<Rightarrow> bool) \<Rightarrow> bool" where
  "sub_at s i P = (i < length (subPromises s) \<and> P (subPromises s ! i))"

fun sub_step :: "bool \<Rightarrow> (event \<Rightarrow> bool) \<Rightarrow> subscription \<Rightarrow> sub_action \<Rightarrow> subscription" where
  "sub_step L M s (ConnectOk i) =
     (if sub_at s i (\<lambda>p. sub_status p = Connecting) then connect_ok i s else s)"
| "sub_step L M s (ConnectFail i) =
     (if sub_at s i (\<lambda>p. sub_status p = Connecting) then connect_failed i s else s)"
| "sub_step L M s (RelayEvent i evt valid) =
     (if sub_at s i (\<lambda>p. sub_status p = Open \<and> \<not> sub_closed p) then relay_event evt valid s else s)"
| "sub_step L M s (RelayEose i) =
     (if sub_at s i (\<lambda>p. sub_status p = Open \<and> \<not> sub_eosed p) then relay_oneose i s else s)"
| "sub_step L M s (RelayClosed i reason signer) =
     (if sub_at s i (\<lambda>p. sub_status p = Open) then relay_onclose L i reason signer s else s)"
| "sub_step L M s (AuthOk i) =
     (if sub_at s i auth_pending then auth_ok i s else s)"
| "sub_step L M s (AuthFail i) =
     (if sub_at s i auth_pending then auth_failed i s else s)"
| "sub_step L M s (BusEvent evt) =
     (if listening s then handleNewEventFromInternal M evt s else s)"
| "sub_step L M s Close = close s"

definition sub_run :: "bool \<Rightarrow> (event \<Rightarrow> bool) \<Rightarrow> string list \<Rightarrow> sub_action list \<Rightarrow> subscription" where
  "sub_run L M urls tr = foldl (sub_step L M) (subscribe urls) tr"

text \<open>The events passed to \<^verbatim>\<open>onevent\<close> and the flags passed to \<^verbatim>\<open>oneose\<close>, from the log.\<close>

fun onevent_calls :: "callback list \<Rightarrow> event list" where
  "onevent_calls [] = []"
| "onevent_calls (OnEvent e # cs) = e # onevent_calls cs"
| "onevent_calls (_ # cs) = onevent_calls cs"

fun oneose_calls :: "callback list \<Rightarrow> bool list" where
  "oneose_calls [] = []"
| "oneose_calls (OnEose b # cs) = b # oneose_calls cs"
| "oneose_calls (_ # cs) = oneose_calls cs"

text \<open>
  The number of sub-subscriptions that have reached their own end of stored events or
  have failed to connect.
\<close>

definition is_done :: "relay_sub \<Rightarrow> bool" where
  "is_done p = (sub_status p = Failed \<or> sub_eosed p)"

definition done_count :: "subscription \<Rightarrow> nat" where
  "done_count s = length (filter is_done (subPromises s))"

text \<open>
  Two invariants of a subscription. The first: every event passed to \<^verbatim>\<open>onevent\<close> has its
  id in \<^verbatim>\<open>_knownIds\<close>, and no two of them share an id. The second relates the counters
  to the promises: \<^verbatim>\<open>startedCount\<close> is their number; while \<^verbatim>\<open>eosed\<close> is false,
  \<^verbatim>\<open>eosedCount\<close> is the number of those that are done, and not all are; once it is true,
  all are done, and there is one; and the flag true has been passed to \<^verbatim>\<open>oneose\<close> once if
  \<^verbatim>\<open>eosed\<close> is true and never otherwise.
\<close>

definition dedup_inv :: "subscription \<Rightarrow> bool" where
  "dedup_inv s =
     (id_evt ` set (onevent_calls (calls s)) \<subseteq> knownIds s \<and>
      distinct (map id_evt (onevent_calls (calls s))))"

definition eose_inv :: "subscription \<Rightarrow> bool" where
  "eose_inv s =
     (startedCount s = length (subPromises s) \<and>
      (\<forall>p \<in> set (subPromises s). sub_status p = Connecting \<longrightarrow> \<not> sub_eosed p) \<and>
      (if eosed s then done_count s = length (subPromises s) \<and> subPromises s \<noteq> []
       else eosedCount s = done_count s \<and>
            (done_count s < length (subPromises s) \<or> subPromises s = [])) \<and>
      count_list (oneose_calls (calls s)) True = (if eosed s then 1 else 0))"

section \<open>The timeline store (\<^verbatim>\<open>_subscribeTimeline\<close>, \<^verbatim>\<open>_loadMoreTimeline\<close>)\<close>

text \<open>
  A filter is a JavaScript object: its entries in insertion order, each value a number, a
  string or an array of numbers or of strings.
\<close>

datatype fvalue = Num int | Str string | Nums "int list" | Strs "string list"

type_synonym Filter = "(string \<times> fvalue) list"

text \<open>
  An entry of \<^verbatim>\<open>this.timelines\<close>: nothing, a timeline with its references, or, for a merged
  timeline, the keys of its parts. (The fields \<^verbatim>\<open>filter\<close> and \<^verbatim>\<open>urls\<close> carry the suffix
  \<open>_tl\<close>.)
\<close>

record timeline =
  refs :: "TTimelineRef list"
  filter_tl :: Filter
  urls_tl :: "string list"

datatype timeline_entry = Absent | Timeline timeline | Keys "string list"

definition ref_of :: "event \<Rightarrow> TTimelineRef" where
  "ref_of evt = (id_evt evt, created_at evt)"

text \<open>
  The binary search of the \<^verbatim>\<open>onevent\<close> handler, from \<open>left\<close> and \<open>right\<close> on. The result
  is \<open>None\<close> where the loop returns from the handler (the event is already there) and the
  final \<open>left\<close> otherwise. \<open>mid\<close> is below \<open>right\<close>, which never exceeds the length.
\<close>

function bsearch :: "TTimelineRef list \<Rightarrow> event \<Rightarrow> nat \<Rightarrow> nat \<Rightarrow> nat option" where
  "bsearch rs evt left right =
     (if left < right then
        (if created_at evt = snd (rs ! ((left + right) div 2))
            \<and> id_evt evt = fst (rs ! ((left + right) div 2))
         then None
         else if created_at evt > snd (rs ! ((left + right) div 2))
                 \<or> (created_at evt = snd (rs ! ((left + right) div 2))
                     \<and> id_evt evt < fst (rs ! ((left + right) div 2)))
         then bsearch rs evt left ((left + right) div 2)
         else bsearch rs evt ((left + right) div 2 + 1) right)
      else Some left)"
  by pat_completeness auto
termination
  by (relation "measure (\<lambda>(rs, evt, left, right). right - left)") auto

declare bsearch.simps [simp del]

text \<open>The search from 0 to the length, the test for an event that is too old, the splice.\<close>

definition insert_ref :: "TTimelineRef list \<Rightarrow> event \<Rightarrow> TTimelineRef list" where
  "insert_ref rs evt =
     (case bsearch rs evt 0 (length rs) of
        None \<Rightarrow> rs
      | Some left \<Rightarrow>
          if left \<ge> length rs then rs
          else take left rs @ [ref_of evt] @ drop left rs)"

text \<open>
  The event data loader: \<^verbatim>\<open>load\<close> (here \<open>load_event\<close>) answers from the event cache, and for an id not in the
  cache from \<^verbatim>\<open>_fetchEvent\<close> (the parameter \<open>fetch\<close>; a failed load yields no event as
  well), whose answer it caches. \<^verbatim>\<open>loadMany\<close> followed by the \<^verbatim>\<open>filter\<close> that keeps the
  events.
\<close>

definition load_event :: "(string \<Rightarrow> event option) \<Rightarrow> caches \<Rightarrow> string \<Rightarrow> event option \<times> caches" where
  "load_event fetch c i =
     (case eventCacheMap c i of
        Some r \<Rightarrow> (r, c)
      | None \<Rightarrow> (fetch i, c\<lparr>eventCacheMap := (eventCacheMap c)(i \<mapsto> fetch i)\<rparr>))"

fun loadMany :: "(string \<Rightarrow> event option) \<Rightarrow> caches \<Rightarrow> string list \<Rightarrow> event list \<times> caches" where
  "loadMany fetch c [] = ([], c)"
| "loadMany fetch c (i # ids) =
     (case load_event fetch c i of
        (r, c1) \<Rightarrow>
          (case loadMany fetch c1 ids of
             (evs, c2) \<Rightarrow> ((case r of None \<Rightarrow> evs | Some e \<Rightarrow> e # evs), c2)))"

text \<open>
  The state of one \<^verbatim>\<open>_subscribeTimeline\<close> call: the entry of \<^verbatim>\<open>this.timelines\<close> under its
  key, the caches, and its local variables. \<open>cleared_tl\<close> says that the closer has
  overwritten \<^verbatim>\<open>onEvents\<close> and \<^verbatim>\<open>onNew\<close> with functions that do nothing; the two logs hold
  the calls that reached the caller's functions. \<open>subCloser_closes\<close> counts the calls of
  \<^verbatim>\<open>subCloser.close()\<close>, the \<^verbatim>\<open>close\<close> of the subscription that \<^verbatim>\<open>subscribe\<close> has returned.
\<close>

record tl_state =
  timeline_of :: timeline_entry
  cache :: caches
  cachedEvents :: "event list"
  since :: "int option"
  events_tl :: "event list"
  eosedAt :: "int option"
  cleared_tl :: bool
  onEvents_tl :: "(event list \<times> bool) list"
  onNew_tl :: "event list"
  subCloser_closes :: nat

definition tl_onEvents :: "event list \<Rightarrow> bool \<Rightarrow> tl_state \<Rightarrow> tl_state" where
  "tl_onEvents evs e s =
     (if cleared_tl s then s else s\<lparr>onEvents_tl := onEvents_tl s @ [(evs, e)]\<rparr>)"

definition tl_onNew :: "event \<Rightarrow> tl_state \<Rightarrow> tl_state" where
  "tl_onNew evt s = (if cleared_tl s then s else s\<lparr>onNew_tl := onNew_tl s @ [evt]\<rparr>)"

text \<open>
  \<^verbatim>\<open>_subscribeTimeline\<close> up to its call of \<^verbatim>\<open>subscribe\<close>: the cached prefix is served, and
  \<^verbatim>\<open>since\<close> is set one second past its newest event. \<open>limit\<close> is \<^verbatim>\<open>filter.limit\<close>.
\<close>

definition subscribeTimeline' ::
  "(string \<Rightarrow> event option) \<Rightarrow> bool \<Rightarrow> nat \<Rightarrow> timeline_entry \<Rightarrow> caches \<Rightarrow> tl_state" where
  "subscribeTimeline' fetch needSort limit entry c =
     (let s0 = \<lparr>timeline_of = entry, cache = c, cachedEvents = [], since = None, events_tl = [],
                eosedAt = None, cleared_tl = False, onEvents_tl = [], onNew_tl = [],
                subCloser_closes = 0\<rparr>
      in case entry of
           Timeline tline \<Rightarrow>
             if refs tline \<noteq> [] \<and> needSort then
               (case loadMany fetch c (map fst (take limit (refs tline))) of
                  (evs, c1) \<Rightarrow>
                    (case evs of
                       [] \<Rightarrow> s0\<lparr>cache := c1\<rparr>
                     | e # _ \<Rightarrow>
                         tl_onEvents evs False
                           (s0\<lparr>cache := c1, cachedEvents := evs, since := Some (created_at e + 1)\<rparr>)))
             else s0
         | _ \<Rightarrow> s0)"

text \<open>\<^verbatim>\<open>!eosedAt\<close>: true for \<^verbatim>\<open>null\<close> and for the number 0.\<close>

fun falsy :: "int option \<Rightarrow> bool" where
  "falsy None = True"
| "falsy (Some n) = (n = 0)"

text \<open>The \<^verbatim>\<open>onevent\<close> callback that \<^verbatim>\<open>_subscribeTimeline\<close> gives to \<^verbatim>\<open>subscribe\<close>.\<close>

definition tl_onevent :: "event_lib \<Rightarrow> tl_state \<Rightarrow> event \<Rightarrow> tl_state" where
  "tl_onevent lib s evt =
     (let s1 = s\<lparr>cache := addEventToCache lib (cache s) evt\<rparr>
      in case eosedAt s1 of
           None \<Rightarrow> s1\<lparr>events_tl := events_tl s1 @ [evt]\<rparr>
         | Some stamp \<Rightarrow>
             if stamp = 0 then s1\<lparr>events_tl := events_tl s1 @ [evt]\<rparr>
             else
               (let s2 = (if created_at evt > stamp then tl_onNew evt s1 else s1)
                in case timeline_of s2 of
                     Timeline tline \<Rightarrow>
                       if refs tline = [] then s2
                       else s2\<lparr>timeline_of := Timeline (tline\<lparr>refs := insert_ref (refs tline) evt\<rparr>)\<rparr>
                   | _ \<Rightarrow> s2))"

text \<open>
  The \<^verbatim>\<open>oneose\<close> callback; \<open>now\<close> is \<^verbatim>\<open>dayjs().unix()\<close>, \<open>flt\<close> and \<open>urls\<close> are the
  arguments of \<^verbatim>\<open>_subscribeTimeline\<close>.
\<close>

definition tl_oneose ::
  "bool \<Rightarrow> nat \<Rightarrow> Filter \<Rightarrow> string list \<Rightarrow> int \<Rightarrow> tl_state \<Rightarrow> bool \<Rightarrow> tl_state" where
  "tl_oneose needSort limit flt urls now s eosed' =
     (let s1 = (if eosed' \<and> falsy (eosedAt s) then s\<lparr>eosedAt := Some now\<rparr> else s)
      in if \<not> needSort then tl_onEvents (events_tl s1) (\<not> falsy (eosedAt s1)) s1
         else
           (let evs = take limit (sort_desc (events_tl s1));
                s2 = s1\<lparr>events_tl := evs\<rparr>;
                fresh = tl_onEvents evs True
                          (s2\<lparr>timeline_of := Timeline \<lparr>refs = map ref_of evs, filter_tl = flt, urls_tl = urls\<rparr>\<rparr>)
            in if \<not> eosed' then tl_onEvents (take limit (evs @ cachedEvents s2)) False s2
               else
                 (case timeline_of s2 of
                    Timeline tline \<Rightarrow>
                      (case refs tline of
                         [] \<Rightarrow> fresh
                       | r # _ \<Rightarrow>
                           (let firstRefCreatedAt = snd r;
                                newRefs = map ref_of (filter (\<lambda>evt. created_at evt > firstRefCreatedAt) evs)
                            in if length evs \<ge> limit
                               then tl_onEvents evs True
                                      (s2\<lparr>timeline_of := Timeline (tline\<lparr>refs := newRefs\<rparr>)\<rparr>)
                               else tl_onEvents (take limit (evs @ cachedEvents s2)) True
                                      (s2\<lparr>timeline_of := Timeline (tline\<lparr>refs := newRefs @ refs tline\<rparr>)\<rparr>)))
                  | _ \<Rightarrow> fresh)))"

text \<open>
  The closer of \<^verbatim>\<open>_subscribeTimeline\<close>: \<^verbatim>\<open>onEvents\<close> and \<^verbatim>\<open>onNew\<close> are overwritten, then
  \<^verbatim>\<open>subCloser.close()\<close> is called, on every call of the closer. What that call does to the
  subscription is \<open>close\<close> above; \<^verbatim>\<open>onClose\<close> of the caller is the \<^verbatim>\<open>onclose\<close> callback of
  that subscription and is not overwritten.
\<close>

definition tl_closer :: "tl_state \<Rightarrow> tl_state" where
  "tl_closer s = s\<lparr>cleared_tl := True, subCloser_closes := subCloser_closes s + 1\<rparr>"

text \<open>What \<^verbatim>\<open>subscribe\<close> and the caller can do to a timeline subscription.\<close>

datatype tl_action = TlEvent event | TlEose bool int | TlCloser

fun tl_step ::
  "event_lib \<Rightarrow> bool \<Rightarrow> nat \<Rightarrow> Filter \<Rightarrow> string list \<Rightarrow> tl_state \<Rightarrow> tl_action \<Rightarrow> tl_state" where
  "tl_step lib needSort limit flt urls s (TlEvent evt) = tl_onevent lib s evt"
| "tl_step lib needSort limit flt urls s (TlEose e now) = tl_oneose needSort limit flt urls now s e"
| "tl_step lib needSort limit flt urls s TlCloser = tl_closer s"

text \<open>\<^verbatim>\<open>findIndex\<close>; \<open>None\<close> stands for -1.\<close>

fun findIndex :: "('a \<Rightarrow> bool) \<Rightarrow> 'a list \<Rightarrow> nat option" where
  "findIndex P [] = None"
| "findIndex P (x # xs) = (if P x then Some 0 else map_option Suc (findIndex P xs))"

text \<open>
  \<^verbatim>\<open>_loadMoreTimeline\<close> on a timeline, run without another task in between. \<open>query\<close>
  gives the events that the relays of the timeline return for its filter with the given
  \<^verbatim>\<open>until\<close> and \<^verbatim>\<open>limit\<close>. The result is the page, the timeline and the caches.
\<close>

definition loadMoreTimeline' ::
  "event_lib \<Rightarrow> (string \<Rightarrow> event option) \<Rightarrow> (int \<Rightarrow> nat \<Rightarrow> event list) \<Rightarrow> int \<Rightarrow>
   timeline \<Rightarrow> caches \<Rightarrow> int \<Rightarrow> nat \<Rightarrow> event list \<times> timeline \<times> caches" where
  "loadMoreTimeline' lib fetch query now tline c until limit =
     (let loaded =
            (case findIndex (\<lambda>r. snd r \<le> until) (refs tline) of
               None \<Rightarrow> ([], c)
             | Some startIdx \<Rightarrow> loadMany fetch c (map fst (take limit (drop startIdx (refs tline)))));
          cachedEvents = fst loaded
      in if length cachedEvents \<ge> limit then (cachedEvents, tline, snd loaded)
         else
           (let until1 = (if cachedEvents \<noteq> [] then created_at (last cachedEvents) - 1 else until);
                limit1 = limit - length cachedEvents;
                fetched = query until1 limit1;
                c1 = fold (\<lambda>evt c. addEventToCache lib c evt) fetched (snd loaded);
                evs = take limit1 (sort_desc fetched);
                lastRefCreatedAt = (if refs tline \<noteq> [] then snd (last (refs tline)) else now)
            in (cachedEvents @ evs,
                tline\<lparr>refs := refs tline @ map ref_of (filter (\<lambda>evt. created_at evt < lastRefCreatedAt) evs)\<rparr>,
                c1)))"

text \<open>
  The order of a timeline: a reference stands before another when it is newer, or as
  old with the smaller id. \<open>desc_refs\<close> only asks that no reference is followed by a
  newer one.
\<close>

definition before :: "TTimelineRef \<Rightarrow> TTimelineRef \<Rightarrow> bool" where
  "before a b = (snd a > snd b \<or> (snd a = snd b \<and> fst a < fst b))"

definition desc_refs :: "TTimelineRef list \<Rightarrow> bool" where
  "desc_refs rs = sorted_wrt (\<lambda>a b. snd a \<ge> snd b) rs"

fun desc_entry :: "timeline_entry \<Rightarrow> bool" where
  "desc_entry (Timeline tline) = desc_refs (refs tline)"
| "desc_entry _ = True"


text \<open>Two notes with the timestamp of \<open>ev1\<close> and greater ids, and empty caches.\<close>

definition ev4 :: event where
  "ev4 = \<lparr>id_evt = ''b4'', pubkey = ''p2'', created_at = 100, kind = 1,
          tags = [], content = ''again'', sig = ''''\<rparr>"

definition ev5 :: event where
  "ev5 = \<lparr>id_evt = ''c9'', pubkey = ''p2'', created_at = 100, kind = 1,
          tags = [], content = ''once more'', sig = ''''\<rparr>"

definition no_caches :: caches where
  "no_caches = \<lparr>eventCacheMap = Map.empty, replaceableEventCacheMap = Map.empty\<rparr>"

section \<open>Closing\<close>

text \<open>The occurrences that come from the client's event bus.\<close>

fun is_bus :: "sub_action \<Rightarrow> bool" where
  "is_bus (BusEvent evt) = True"
| "is_bus _ = False"

section \<open>Timeline keys (\<^verbatim>\<open>generateTimelineKey\<close>)\<close>

text \<open>
  The default order of \<^verbatim>\<open>Array.prototype.sort\<close> compares the elements as strings. A
  number becomes its decimal digits, an array its elements joined by commas, and so an
  entry \<^verbatim>\<open>[key, value]\<close> of a filter becomes the key, a comma and the value.
\<close>

definition digit :: "nat \<Rightarrow> char" where
  "digit n = ''0123456789'' ! n"

function show_nat :: "nat \<Rightarrow> string" where
  "show_nat n = (if n < 10 then [digit n] else show_nat (n div 10) @ [digit (n mod 10)])"
  by pat_completeness auto
termination
  by (relation "measure id") auto

declare show_nat.simps [simp del]

definition show_int :: "int \<Rightarrow> string" where
  "show_int i = (if i < 0 then ''-'' @ show_nat (nat (- i)) else show_nat (nat i))"

fun join :: "string list \<Rightarrow> string" where
  "join [] = ''''"
| "join [s] = s"
| "join (s # ss) = s @ '','' @ join ss"

fun value_text :: "fvalue \<Rightarrow> string" where
  "value_text (Num i) = show_int i"
| "value_text (Str s) = s"
| "value_text (Nums is) = join (map show_int is)"
| "value_text (Strs ss) = join ss"

definition entry_text :: "string \<times> fvalue \<Rightarrow> string" where
  "entry_text kv = fst kv @ '','' @ value_text (snd kv)"

text \<open>\<^verbatim>\<open>[...value].sort()\<close> for a value that is an array; \<open>None\<close> for any other value.\<close>

fun sorted_copy :: "fvalue \<Rightarrow> fvalue option" where
  "sorted_copy (Nums is) = Some (Nums (sort_key show_int is))"
| "sorted_copy (Strs ss) = Some (Strs (sort ss))"
| "sorted_copy _ = None"

text \<open>
  The body of the \<^verbatim>\<open>forEach\<close>: for an array the sorted copy is assigned to
  \<^verbatim>\<open>stableFilter[key]\<close>, and then, for every value, the value itself is assigned to it.
\<close>

definition stable_entry :: "Filter \<Rightarrow> string \<times> fvalue \<Rightarrow> Filter" where
  "stable_entry stableFilter kv =
     (let o1 = (case sorted_copy (snd kv) of
                  Some sorted_value \<Rightarrow> map_set stableFilter (fst kv) sorted_value
                | None \<Rightarrow> stableFilter)
      in map_set o1 (fst kv) (snd kv))"

definition stableFilter :: "Filter \<Rightarrow> Filter" where
  "stableFilter flt = foldl stable_entry [] (sort_key entry_text flt)"

text \<open>
  \<^verbatim>\<open>generateTimelineKey\<close>. \<open>digest\<close> stands for what is done to the object built from
  the sorted relay URLs and \<^verbatim>\<open>stableFilter\<close>: \<^verbatim>\<open>JSON.stringify\<close>, the SHA-256 hash of the
  encoded string, and its hexadecimal digits.
\<close>

definition generateTimelineKey ::
  "(string list \<times> Filter \<Rightarrow> string) \<Rightarrow> string list \<Rightarrow> Filter \<Rightarrow> string" where
  "generateTimelineKey digest urls flt = digest (sort urls, stableFilter flt)"

section \<open>Properties of the replaceable event cache\<close>

lemma addEventToCache_fresh:
  "isReplaceableEvent lib (kind ev) \<Longrightarrow>
   replaceableEventCacheMap c (getReplaceableCoordinateFromEvent lib ev) = None \<Longrightarrow>
   replaceableEventCacheMap (addEventToCache lib c ev) (getReplaceableCoordinateFromEvent lib ev)
     = Some ev"
  by (simp add: addEventToCache_def Let_def)

lemma addEventToCache_newer:
  "isReplaceableEvent lib (kind ev) \<Longrightarrow>
   replaceableEventCacheMap c (getReplaceableCoordinateFromEvent lib ev) = Some old \<Longrightarrow>
   compareEvents lib ev old > 0 \<Longrightarrow>
   replaceableEventCacheMap (addEventToCache lib c ev) (getReplaceableCoordinateFromEvent lib ev)
     = Some ev"
  by (simp add: addEventToCache_def Let_def)

lemma addEventToCache_older:
  "isReplaceableEvent lib (kind ev) \<Longrightarrow>
   replaceableEventCacheMap c (getReplaceableCoordinateFromEvent lib ev) = Some cur \<Longrightarrow>
   \<not> compareEvents lib ev cur > 0 \<Longrightarrow>
   replaceableEventCacheMap (addEventToCache lib c ev) (getReplaceableCoordinateFromEvent lib ev)
     = Some cur"
  by (simp add: addEventToCache_def Let_def)

text \<open>
  C7. Two events of a replaceable kind with the same coordinate and different
  \<^verbatim>\<open>created_at\<close> are passed to \<^verbatim>\<open>addEventToCache\<close>, in either order, starting from a
  cache whose entry for the coordinate, if any, is older than the newer of the two, and
  with a comparison of events that puts the newer of two events first: the cache then
  holds the event with the greater \<^verbatim>\<open>created_at\<close> under that coordinate.
\<close>

theorem addEventToCache_keeps_newest:
  assumes repl: "isReplaceableEvent lib (kind e1)" "isReplaceableEvent lib (kind e2)"
    and coord: "getReplaceableCoordinateFromEvent lib e1 = getReplaceableCoordinateFromEvent lib e2"
    and newer: "created_at e1 < created_at e2"
    and cmp: "\<forall>a b. created_at a < created_at b \<longrightarrow>
                compareEvents lib b a > 0 \<and> \<not> compareEvents lib a b > 0"
    and cached: "case replaceableEventCacheMap c (getReplaceableCoordinateFromEvent lib e2) of
                   None \<Rightarrow> True | Some e0 \<Rightarrow> created_at e0 < created_at e2"
  shows "replaceableEventCacheMap (addEventToCache lib (addEventToCache lib c e1) e2)
           (getReplaceableCoordinateFromEvent lib e2) = Some e2
       \<and> replaceableEventCacheMap (addEventToCache lib (addEventToCache lib c e2) e1)
           (getReplaceableCoordinateFromEvent lib e2) = Some e2"
proof
  let ?k = "getReplaceableCoordinateFromEvent lib e2"
  show "replaceableEventCacheMap (addEventToCache lib (addEventToCache lib c e1) e2) ?k = Some e2"
  proof (cases "replaceableEventCacheMap c ?k")
    case None
    then have "replaceableEventCacheMap (addEventToCache lib c e1) ?k = Some e1"
      using addEventToCache_fresh [of lib e1 c] repl(1) coord by simp
    then show ?thesis
      using addEventToCache_newer [of lib e2 "addEventToCache lib c e1" e1] repl(2) newer cmp
      by simp
  next
    case (Some e0)
    then have old: "created_at e0 < created_at e2" using cached by simp
    have "replaceableEventCacheMap (addEventToCache lib c e1) ?k = Some e1
        \<or> replaceableEventCacheMap (addEventToCache lib c e1) ?k = Some e0"
      using Some repl(1) coord by (simp add: addEventToCache_def Let_def)
    then show ?thesis
      using addEventToCache_newer [of lib e2 "addEventToCache lib c e1"] repl(2) newer old cmp
      by auto
  qed
next
  let ?k = "getReplaceableCoordinateFromEvent lib e2"
  have "replaceableEventCacheMap (addEventToCache lib c e2) ?k = Some e2"
  proof (cases "replaceableEventCacheMap c ?k")
    case None
    then show ?thesis using addEventToCache_fresh [of lib e2 c] repl(2) by simp
  next
    case (Some e0)
    then show ?thesis using addEventToCache_newer [of lib e2 c e0] repl(2) cached cmp by simp
  qed
  then show "replaceableEventCacheMap (addEventToCache lib (addEventToCache lib c e2) e1) ?k = Some e2"
    using addEventToCache_older [of lib e1 "addEventToCache lib c e2" e2] repl(1) coord newer cmp
    by simp
qed


lemma spec_lib_simps [simp]:
  "isReplaceableEvent spec_lib = spec_isReplaceableEvent"
  "getReplaceableCoordinateFromEvent spec_lib = spec_getReplaceableCoordinateFromEvent"
  "compareEvents spec_lib = spec_compareEvents"
  by (simp_all add: spec_lib_def)

lemma spec_compareEvents_newer:
  "\<forall>a b. created_at a < created_at b \<longrightarrow>
     compareEvents spec_lib b a > 0 \<and> \<not> compareEvents spec_lib a b > 0"
  by (simp add: spec_compareEvents_def)

theorem addEventToCache_keeps_newest_witness:
  "replaceableEventCacheMap
     (addEventToCache spec_lib (addEventToCache spec_lib no_caches ev1) ev2)
     (10002, ''p1'', ''x'') = Some ev2
   \<and> replaceableEventCacheMap
     (addEventToCache spec_lib (addEventToCache spec_lib no_caches ev2) ev1)
     (10002, ''p1'', ''x'') = Some ev2"
  using addEventToCache_keeps_newest [of spec_lib ev1 ev2 no_caches, OF _ _ _ _ spec_compareEvents_newer]
  by (simp add: ev1_def ev2_def spec_getReplaceableCoordinateFromEvent_def tagNameEquals_def
      spec_isReplaceableEvent_def no_caches_def)

section \<open>Properties of the relay list lookup\<close>

lemma idx_ok_map_set: "idx_ok ps m \<Longrightarrow> i < length ps \<Longrightarrow> ps ! i = p \<Longrightarrow> idx_ok ps (map_set m p i)"
  by (induction m p i rule: map_set.induct) (auto simp: idx_ok_def)

lemma keys_map_set: "fst ` set (map_set m p i) = insert p (fst ` set m)"
  by (induction m p i rule: map_set.induct) auto

lemma idx_ok_nonExisting:
  "idx_ok (pre @ ps) m \<Longrightarrow> j = length pre \<Longrightarrow> idx_ok (pre @ ps) (nonExisting ps evs j m)"
proof (induction ps evs j m arbitrary: pre rule: nonExisting.induct)
  case (1 evs i m)
  then show ?case by simp
next
  case (2 p ps evs i m)
  let ?m = "if i < length evs \<and> evs ! i \<noteq> Undefined then m else map_set m p i"
  have "idx_ok (pre @ p # ps) ?m"
    using 2(2,3) by (auto intro!: idx_ok_map_set)
  then have pre: "idx_ok ((pre @ [p]) @ ps) ?m" by simp
  have "idx_ok ((pre @ [p]) @ ps) (nonExisting ps evs (Suc i) ?m)"
    by (rule 2(1) [OF pre]) (simp add: 2(3))
  then show ?case by (simp split del: if_split)
qed

lemma keys_nonExisting: "fst ` set (nonExisting ps evs j m) \<subseteq> fst ` set m \<union> set ps"
  by (induction ps evs j m rule: nonExisting.induct) (auto simp: keys_map_set split: if_splits)

lemma map_of_idx_ok: "idx_ok ps m \<Longrightarrow> map_of m q = Some i \<Longrightarrow> i < length ps \<and> ps ! i = q"
  by (auto simp: idx_ok_def dest: map_of_SomeD)

lemma length_placeLoaded:
  "idx_ok ps m \<Longrightarrow> length evs = length ps \<Longrightarrow> length (placeLoaded m ls evs) = length ps"
  by (induction m ls evs rule: placeLoaded.induct)
     (auto simp: assign_def split: option.splits dest: map_of_idx_ok)

lemma placeLoaded_keeps:
  "idx_ok ps m \<Longrightarrow> length evs = length ps \<Longrightarrow> i < length ps \<Longrightarrow>
   list_all (\<lambda>l. case l of Loaded e \<Rightarrow> pubkey e \<noteq> ps ! i | _ \<Rightarrow> True) ls \<Longrightarrow>
   placeLoaded m ls evs ! i = evs ! i"
proof (induction m ls evs rule: placeLoaded.induct)
  case (2 m e ls evs)
  show ?case
  proof (cases "map_of m (pubkey e)")
    case None
    with 2 show ?thesis by simp
  next
    case (Some j)
    with 2(2) have j: "j < length ps" "ps ! j = pubkey e" by (auto dest: map_of_idx_ok)
    with 2(5) have "j \<noteq> i" by auto
    with 2 Some j show ?thesis by (simp add: assign_def)
  qed
qed simp_all

lemma length_fetchReplaceable:
  "length (fetchReplaceableEventsFromBigRelays db load ps k) = length ps"
proof -
  have "idx_ok ([] @ ps) (nonExisting ps (getManyReplaceableEvents db ps k) 0 [])"
    by (rule idx_ok_nonExisting) (simp_all add: idx_ok_def)
  then show ?thesis
    by (simp add: fetchReplaceableEventsFromBigRelays_def Let_def length_placeLoaded
        getManyReplaceableEvents_def)
qed

lemma fetchReplaceable_not_found:
  assumes "i < length ps"
    and "list_all (\<lambda>q. case load q k of Loaded e \<Rightarrow> pubkey e \<noteq> ps ! i | _ \<Rightarrow> True) ps"
  shows "fetchReplaceableEventsFromBigRelays db load ps k ! i = db (ps ! i) k"
proof -
  let ?evs = "getManyReplaceableEvents db ps k"
  let ?m = "nonExisting ps ?evs 0 []"
  have ok: "idx_ok ([] @ ps) ?m"
    by (rule idx_ok_nonExisting) (simp_all add: idx_ok_def)
  have keys: "fst ` set ?m \<subseteq> set ps"
    using keys_nonExisting [of ps ?evs 0 "[]"] by simp
  have "list_all (\<lambda>l. case l of Loaded e \<Rightarrow> pubkey e \<noteq> ps ! i | _ \<Rightarrow> True)
          (map (\<lambda>(p, _). load p k) ?m)"
    using assms(2) keys by (fastforce simp: list_all_iff)
  then have "placeLoaded ?m (map (\<lambda>(p, _). load p k) ?m) ?evs ! i = ?evs ! i"
    using placeLoaded_keeps [of ps ?m ?evs i] ok assms(1)
    by (simp add: getManyReplaceableEvents_def)
  then show ?thesis
    using assms(1) by (simp add: fetchReplaceableEventsFromBigRelays_def Let_def getManyReplaceableEvents_def)
qed

text \<open>
  C10. \<^verbatim>\<open>fetchRelayList\<close> always yields a relay list object, never \<^verbatim>\<open>undefined\<close>, and
  \<^verbatim>\<open>fetchRelayLists\<close> yields one object per public key; where no relay list event is found
  for the key, the object has the big relay URLs as \<^verbatim>\<open>read\<close> and \<^verbatim>\<open>write\<close> and no
  original relays.
\<close>

theorem fetchRelayList_always_object:
  "(\<exists>relayList. fetchRelayList g db load p = Some relayList)
   \<and> length (fetchRelayLists g db load ps) = length ps
   \<and> (noRelayListEvent db load [p] p \<longrightarrow> fetchRelayList g db load p = Some defaultRelayList)
   \<and> (\<forall>i < length ps. noRelayListEvent db load ps (ps ! i) \<longrightarrow>
        fetchRelayLists g db load ps ! i = defaultRelayList)"
proof -
  have len: "\<And>qs. length (fetchRelayLists g db load qs) = length qs"
    by (simp add: fetchRelayLists_def length_fetchReplaceable)
  have nf: "fetchRelayLists g db load qs ! i = defaultRelayList"
    if "i < length qs" "noRelayListEvent db load qs (qs ! i)" for qs i
  proof -
    have "fetchReplaceableEventsFromBigRelays db load qs kinds_RelayList ! i = db (qs ! i) kinds_RelayList"
      using that by (intro fetchReplaceable_not_found) (simp_all add: noRelayListEvent_def)
    then show ?thesis
      using that by (auto simp: fetchRelayLists_def length_fetchReplaceable noRelayListEvent_def
          split: stored.splits)
  qed
  obtain r where r: "fetchRelayLists g db load [p] = [r]"
    using len [of "[p]"] by (cases "fetchRelayLists g db load [p]") auto
  have "noRelayListEvent db load [p] p \<Longrightarrow> r = defaultRelayList"
    using nf [of 0 "[p]"] r by simp
  then show ?thesis
    using len nf r by (auto simp: fetchRelayList_def)
qed

theorem fetchRelayList_always_object_witness:
  "noRelayListEvent (\<lambda>p k. Undefined) (\<lambda>p k. LoadedNull) [''p1''] ''p1''
   \<and> fetchRelayList (\<lambda>e. defaultRelayList\<lparr>originalRelays := [(''u'', ''read'')]\<rparr>) (\<lambda>p k. Undefined) (\<lambda>p k. LoadedNull) ''p1''
       = Some defaultRelayList"
  using fetchRelayList_always_object [of "\<lambda>e. defaultRelayList\<lparr>originalRelays := [(''u'', ''read'')]\<rparr>" "\<lambda>p k. Undefined" "\<lambda>p k. LoadedNull" "''p1''" "[]"]
  by (simp add: noRelayListEvent_def)

section \<open>Properties of the multi-timeline aggregator\<close>

lemma call_onEvents_fields [simp]:
  "eosedCount_agg (call_onEvents s es b) = eosedCount_agg s"
  "cleared_agg (call_onEvents s es b) = cleared_agg s"
  "events_agg (call_onEvents s es b) = events_agg s"
  by (simp_all add: call_onEvents_def)

lemma agg_step_eosedCount:
  "eosedCount_agg (agg_step n s a) = eosedCount_agg s + (if is_eose_report a then 1 else 0)"
  by (cases a) (simp_all add: sub_onEvents_def Let_def sub_onNew_def call_onNew_def agg_closer_def)

lemma agg_step_cleared:
  "cleared_agg (agg_step n s a) = (cleared_agg s \<or> a = Closer)"
  by (cases a) (simp_all add: sub_onEvents_def Let_def sub_onNew_def call_onNew_def agg_closer_def)

lemma agg_run_snoc: "agg_run n (tr @ [a]) = agg_step n (agg_run n tr) a"
  by (simp add: agg_run_def)

lemma agg_run_eosedCount: "eosedCount_agg (agg_run n tr) = eose_reports tr"
  by (induction tr rule: rev_induct)
     (simp_all add: agg_run_snoc agg_step_eosedCount eose_reports_def, simp add: agg_run_def agg_init_def)

lemma agg_run_cleared: "cleared_agg (agg_run n tr) = (Closer \<in> set tr)"
  by (induction tr rule: rev_induct)
     (auto simp: agg_run_snoc agg_step_cleared, simp_all add: agg_run_def agg_init_def)

text \<open>
  C6. While the closer has not run, a report of a sub-timeline reaches the caller's
  \<^verbatim>\<open>onEvents\<close> exactly when the number of reports carrying the end-of-stored-events flag
  so far, this one included, is at least \<open>requestCount div 2\<close>; the flag passed on says
  whether that number is at least \<open>requestCount\<close>.
\<close>

theorem subscribeTimeline_quorum:
  assumes "Closer \<notin> set tr"
  shows "eosedCount_agg (agg_run n (tr @ [SubEvents limit evs e])) = eose_reports (tr @ [SubEvents limit evs e])
       \<and> onEvents_calls (agg_run n (tr @ [SubEvents limit evs e])) =
           (if eose_reports (tr @ [SubEvents limit evs e]) \<ge> n div 2
            then onEvents_calls (agg_run n tr) @
                   [(events_agg (agg_run n (tr @ [SubEvents limit evs e])),
                     eose_reports (tr @ [SubEvents limit evs e]) \<ge> n)]
            else onEvents_calls (agg_run n tr))"
proof -
  let ?s = "agg_run n tr"
  let ?a = "SubEvents limit evs e"
  have open_cb: "\<not> cleared_agg ?s" using assms by (simp add: agg_run_cleared)
  have c: "eosedCount_agg (agg_run n (tr @ [?a])) = eose_reports (tr @ [?a])"
    by (rule agg_run_eosedCount)
  have c': "eose_reports (tr @ [?a]) = (if e then eosedCount_agg ?s + 1 else eosedCount_agg ?s)"
    by (simp add: agg_run_eosedCount eose_reports_def)
  have "onEvents_calls (sub_onEvents n limit ?s evs e) =
          (if eose_reports (tr @ [?a]) \<ge> n div 2
           then onEvents_calls ?s @ [(events_agg (sub_onEvents n limit ?s evs e), eose_reports (tr @ [?a]) \<ge> n)]
           else onEvents_calls ?s)"
    unfolding c' using open_cb by (simp add: sub_onEvents_def Let_def call_onEvents_def)
  then show ?thesis using c by (simp add: agg_run_snoc)
qed

theorem subscribeTimeline_quorum_witness:
  "Closer \<notin> set [SubEvents 10 [ev1] False]
   \<and> onEvents_calls (agg_run 3 [SubEvents 10 [ev1] False]) = []
   \<and> onEvents_calls (agg_run 3 ([SubEvents 10 [ev1] False] @ [SubEvents 10 [ev3] True]))
       = [([ev3, ev1], False)]"
  using subscribeTimeline_quorum [of "[SubEvents 10 [ev1] False]" 3 10 "[ev3]" True]
  by (simp add: agg_run_def agg_init_def sub_onEvents_def Let_def call_onEvents_def sort_desc_def
      eose_reports_def ev1_def ev3_def)

section \<open>Properties of publishing\<close>

lemma isSuccess_ceiling: "(real a \<ge> real n / 3) = ((n + 2) div 3 \<le> a)"
proof -
  have "(real a \<ge> real n / 3) = (real n \<le> real (3 * a))"
    by (simp add: field_simps)
  also have "\<dots> = (n \<le> 3 * a)"
    by (simp only: of_nat_le_iff)
  also have "\<dots> = ((n + 2) div 3 \<le> a)"
    by arith
  finally show ?thesis .
qed

lemma finally_handler_ceiling:
  "finally_handler n s =
     (let s1 = (if (n + 2) div 3 \<le> successCount s
                then settle Resolved (s\<lparr>emitted := emitted s + 1\<rparr>) else s);
          s2 = s1\<lparr>finishedCount := finishedCount s1 + 1\<rparr>
      in if finishedCount s2 \<ge> n then settle (Rejected (map error_line (errors s2))) s2 else s2)"
  by (simp only: finally_handler_def isSuccess_ceiling Let_def)

lemma length_uniq_pos: "xs \<noteq> [] \<Longrightarrow> 1 \<le> length (uniq xs)"
  by (cases xs) simp_all

lemma acks_snoc: "acks (os @ [uo]) = acks os + (if snd uo = PublishOk then 1 else 0)"
  by (simp add: acks_def)

lemma failure_lines_snoc:
  "failure_lines (os @ [(url, out)]) =
     failure_lines os @ (case out of PublishError err r \<Rightarrow> [error_line (url, err)] | _ \<Rightarrow> [])"
  by (induction os rule: failure_lines.induct) (simp_all split: relay_outcome.splits)

lemma length_failure_lines:
  "list_all (plain signer) os \<Longrightarrow> length (failure_lines os) + acks os = length os"
  by (induction os rule: failure_lines.induct) (simp_all add: acks_def)

text \<open>The state after a run of plain outcomes, none of them beyond the number of relays.\<close>

lemma publish_run_plain:
  assumes "1 \<le> n" "length os \<le> n" "list_all (plain signer) os"
  shows "successCount (foldl (publish_step n signer) publish_init os) = acks os
       \<and> finishedCount (foldl (publish_step n signer) publish_init os) = length os
       \<and> map error_line (errors (foldl (publish_step n signer) publish_init os)) = failure_lines os
       \<and> settled (foldl (publish_step n signer) publish_init os) =
           (if (n + 2) div 3 \<le> acks os then Some Resolved
            else if length os = n then Some (Rejected (failure_lines os))
            else None)"
  using assms(2,3)
proof (induction os rule: rev_induct)
  case Nil
  then show ?case using assms(1) by (simp add: publish_init_def acks_def)
next
  case (snoc uo os)
  let ?s = "foldl (publish_step n signer) publish_init os"
  obtain url out where uo: "uo = (url, out)" by (cases uo)
  from snoc have len: "length os < n" and pl: "list_all (plain signer) os" and plo: "plain signer (url, out)"
    by (simp_all add: uo)
  from snoc(1) len pl have IH:
    "successCount ?s = acks os" "finishedCount ?s = length os"
    "map error_line (errors ?s) = failure_lines os"
    "settled ?s = (if (n + 2) div 3 \<le> acks os then Some Resolved else None)"
    by simp_all
  show ?case
  proof (cases out)
    case NoRelay
    with plo show ?thesis by simp
  next
    case PublishOk
    then show ?thesis
      using IH len
      by (simp add: uo finally_handler_ceiling Let_def settle_def acks_snoc failure_lines_snoc)
  next
    case (PublishError err r)
    then show ?thesis
      using IH len plo
      by (simp add: uo finally_handler_ceiling Let_def settle_def acks_snoc failure_lines_snoc)
  qed
qed

text \<open>
  C3, as amended. Over at least one relay, with every relay that has finished connected
  and either acknowledging or failing without an authenticated second publish:
  \<^verbatim>\<open>publishEvent\<close> is resolved as soon as the acknowledgements number at least a third of
  the relays, rounded up, whatever the number of relays still pending; and when all
  relays have finished with fewer acknowledgements, it is rejected with an aggregate error
  that has one entry for every relay that failed, and none for those that acknowledged.
\<close>

theorem publishEvent_quorum:
  assumes "relayUrls \<noteq> []"
    and "length outcomes \<le> length (uniq relayUrls)"
    and "list_all (plain signer) outcomes"
  shows "settled (publishEvent signer relayUrls outcomes) =
           (if (length (uniq relayUrls) + 2) div 3 \<le> acks outcomes then Some Resolved
            else if length outcomes = length (uniq relayUrls)
                 then Some (Rejected (failure_lines outcomes))
            else None)
       \<and> length (failure_lines outcomes) = length outcomes - acks outcomes"
proof
  show "settled (publishEvent signer relayUrls outcomes) =
           (if (length (uniq relayUrls) + 2) div 3 \<le> acks outcomes then Some Resolved
            else if length outcomes = length (uniq relayUrls)
                 then Some (Rejected (failure_lines outcomes))
            else None)"
    unfolding publishEvent_def
    using publish_run_plain [OF length_uniq_pos [OF assms(1)] assms(2,3)] by simp
  show "length (failure_lines outcomes) = length outcomes - acks outcomes"
    using length_failure_lines [OF assms(3)] by simp
qed

theorem publishEvent_quorum_witness:
  "nine_relays \<noteq> [] \<and> length (take 4 (rev two_of_nine)) \<le> length (uniq nine_relays)
   \<and> list_all (plain True) (take 4 (rev two_of_nine))
   \<and> acks (take 4 (rev two_of_nine)) = 1
   \<and> settled (publishEvent True nine_relays (take 4 (rev two_of_nine))) = None
   \<and> length (failure_lines (take 4 (rev two_of_nine))) = 3"
  using publishEvent_quorum [of nine_relays "take 4 (rev two_of_nine)" True]
  by (simp add: nine_relays_def two_of_nine_def acks_def)

text \<open>
  With two acknowledgements out of nine relays and seven refusals, the aggregate error
  has the seven entries of the relays that refused, not nine.
\<close>

theorem publishEvent_two_of_nine:
  "acks two_of_nine = 2 \<and> length (uniq nine_relays) = 9
   \<and> settled (publishEvent True nine_relays two_of_nine) =
       Some (Rejected [''r1: blocked'', ''r2: blocked'', ''r4: blocked'', ''r5: blocked'',
                       ''r6: blocked'', ''r8: blocked'', ''r9: blocked''])"
  by (simp add: nine_relays_def two_of_nine_def acks_def publishEvent_def publish_init_def
      finally_handler_ceiling Let_def settle_def error_line_def)

section \<open>Properties of the multi-relay subscription\<close>

lemma onevent_calls_append: "onevent_calls (cs @ ds) = onevent_calls cs @ onevent_calls ds"
  by (induction cs rule: onevent_calls.induct) simp_all

lemma oneose_calls_append: "oneose_calls (cs @ ds) = oneose_calls cs @ oneose_calls ds"
  by (induction cs rule: oneose_calls.induct) simp_all

lemma call_simps [simp]:
  "calls (call c s) = calls s @ [c]"
  "knownIds (call c s) = knownIds s"
  "subPromises (call c s) = subPromises s"
  "startedCount (call c s) = startedCount s"
  "eosedCount (call c s) = eosedCount s"
  "eosed (call c s) = eosed s"
  "listening (call c s) = listening s"
  "closedCount (call c s) = closedCount s"
  "closeReasons (call c s) = closeReasons s"
  by (simp_all add: call_def)

lemma upd_sub_simps [simp]:
  "calls (upd_sub i f s) = calls s"
  "knownIds (upd_sub i f s) = knownIds s"
  "subPromises (upd_sub i f s) = (subPromises s)[i := f (subPromises s ! i)]"
  "startedCount (upd_sub i f s) = startedCount s"
  "eosedCount (upd_sub i f s) = eosedCount s"
  "eosed (upd_sub i f s) = eosed s"
  "listening (upd_sub i f s) = listening s"
  "hasAuthed (upd_sub i f s) = hasAuthed s"
  "closedCount (upd_sub i f s) = closedCount s"
  "closeReasons (upd_sub i f s) = closeReasons s"
  by (simp_all add: upd_sub_def)

lemma startSub_simps [simp]:
  "calls (startSub u s) = calls s"
  "knownIds (startSub u s) = knownIds s"
  "startedCount (startSub u s) = startedCount s + 1"
  "eosedCount (startSub u s) = eosedCount s"
  "eosed (startSub u s) = eosed s"
  "listening (startSub u s) = listening s"
  "length (subPromises (startSub u s)) = length (subPromises s) + 1"
  by (simp_all add: startSub_def)

lemma count_eose_simps [simp]:
  "knownIds (count_eose s) = knownIds s"
  "onevent_calls (calls (count_eose s)) = onevent_calls (calls s)"
  "subPromises (count_eose s) = subPromises s"
  "startedCount (count_eose s) = startedCount s"
  "listening (count_eose s) = listening s"
  by (simp_all add: count_eose_def Let_def onevent_calls_append)

lemma report_close_simps [simp]:
  "knownIds (report_close u r s) = knownIds s"
  "onevent_calls (calls (report_close u r s)) = onevent_calls (calls s)"
  "oneose_calls (calls (report_close u r s)) = oneose_calls (calls s)"
  "subPromises (report_close u r s) = subPromises s"
  "startedCount (report_close u r s) = startedCount s"
  "eosedCount (report_close u r s) = eosedCount s"
  "eosed (report_close u r s) = eosed s"
  "listening (report_close u r s) = listening s"
  by (simp_all add: report_close_def Let_def onevent_calls_append oneose_calls_append)

lemma sub_close_simps [simp]:
  "knownIds (sub_close i s) = knownIds s"
  "onevent_calls (calls (sub_close i s)) = onevent_calls (calls s)"
  "oneose_calls (calls (sub_close i s)) = oneose_calls (calls s)"
  "subPromises (sub_close i s) = (subPromises s)[i := (subPromises s ! i)\<lparr>sub_closed := True\<rparr>]"
  "startedCount (sub_close i s) = startedCount s"
  "eosedCount (sub_close i s) = eosedCount s"
  "eosed (sub_close i s) = eosed s"
  "listening (sub_close i s) = listening s"
  by (simp_all add: sub_close_def)

text \<open>
  \<^verbatim>\<open>sub.close()\<close> is the \<^verbatim>\<open>onclose\<close> handler run with the reason of the library, whatever
  the signer and the login callback.
\<close>

lemma sub_close_is_onclose: "sub_close i s = relay_onclose L i ''closed by caller'' signer s"
  by (simp add: sub_close_def relay_onclose_def)

lemma sub_close_funpow_simps [simp]:
  "knownIds ((sub_close i ^^ k) s) = knownIds s"
  "onevent_calls (calls ((sub_close i ^^ k) s)) = onevent_calls (calls s)"
  "listening ((sub_close i ^^ k) s) = listening s"
  "length (subPromises ((sub_close i ^^ k) s)) = length (subPromises s)"
  by (induction k) simp_all

lemma close_promise_simps [simp]:
  "knownIds (close_promise i s) = knownIds s"
  "onevent_calls (calls (close_promise i s)) = onevent_calls (calls s)"
  "listening (close_promise i s) = listening s"
  "length (subPromises (close_promise i s)) = length (subPromises s)"
  by (simp_all add: close_promise_def split: sub_status.splits)

lemma fold_close_promise_simps [simp]:
  "knownIds (fold close_promise is s) = knownIds s"
  "onevent_calls (calls (fold close_promise is s)) = onevent_calls (calls s)"
  "listening (fold close_promise is s) = listening s"
  "length (subPromises (fold close_promise is s)) = length (subPromises s)"
  by (induction "is" arbitrary: s) simp_all

lemma close_simps [simp]:
  "knownIds (close s) = knownIds s"
  "onevent_calls (calls (close s)) = onevent_calls (calls s)"
  "listening (close s) = False"
  "length (subPromises (close s)) = length (subPromises s)"
  by (simp_all add: close_def)

subsection \<open>Deduplication\<close>

lemma dedup_inv_same:
  "dedup_inv s \<Longrightarrow> knownIds s \<subseteq> knownIds s' \<Longrightarrow>
   onevent_calls (calls s') = onevent_calls (calls s) \<Longrightarrow> dedup_inv s'"
  by (auto simp: dedup_inv_def)

lemma dedup_inv_deliver:
  "dedup_inv s \<Longrightarrow> id_evt evt \<notin> knownIds s \<Longrightarrow>
   dedup_inv (call (OnEvent evt) (s\<lparr>knownIds := insert (id_evt evt) (knownIds s)\<rparr>))"
  by (auto simp: dedup_inv_def onevent_calls_append)

lemma dedup_inv_relay_event: "dedup_inv s \<Longrightarrow> dedup_inv (relay_event evt valid s)"
  unfolding relay_event_def Let_def
  by (auto intro: dedup_inv_deliver dedup_inv_same [of s])

lemma dedup_inv_bus: "dedup_inv s \<Longrightarrow> dedup_inv (handleNewEventFromInternal M evt s)"
  unfolding handleNewEventFromInternal_def
  by (auto intro: dedup_inv_deliver)

lemma dedup_inv_onclose: "dedup_inv s \<Longrightarrow> dedup_inv (relay_onclose L i reason signer s)"
  by (rule dedup_inv_same [of s]) (simp_all add: relay_onclose_def Let_def onevent_calls_append)

lemma dedup_inv_auth_ok: "dedup_inv s \<Longrightarrow> dedup_inv (auth_ok i s)"
  by (rule dedup_inv_same [of s]) (simp_all add: auth_ok_def Let_def)

lemma dedup_inv_step: "dedup_inv s \<Longrightarrow> dedup_inv (sub_step L M s a)"
proof (cases a)
  case (RelayEvent i evt valid)
  then show "dedup_inv s \<Longrightarrow> ?thesis" by (simp add: dedup_inv_relay_event)
next
  case (BusEvent evt)
  then show "dedup_inv s \<Longrightarrow> ?thesis" by (simp add: dedup_inv_bus)
next
  case (RelayClosed i reason signer)
  then show "dedup_inv s \<Longrightarrow> ?thesis" by (simp add: dedup_inv_onclose)
next
  case (AuthOk i)
  then show "dedup_inv s \<Longrightarrow> ?thesis" by (simp add: dedup_inv_auth_ok)
qed (auto intro: dedup_inv_same [of s]
      simp: connect_ok_def connect_failed_def relay_oneose_def auth_failed_def)

lemma fold_startSub_calls:
  "calls (fold startSub us s) = calls s \<and> knownIds (fold startSub us s) = knownIds s"
  by (induction us arbitrary: s) simp_all

lemma dedup_inv_subscribe: "dedup_inv (subscribe urls)"
  by (simp add: dedup_inv_def subscribe_def fold_startSub_calls)

lemma dedup_inv_foldl: "dedup_inv s \<Longrightarrow> dedup_inv (foldl (sub_step L M) s tr)"
  by (induction tr arbitrary: s) (simp_all add: dedup_inv_step)

text \<open>
  C1. Whatever the relays, the filters, the relay sub-subscriptions and the event bus
  deliver, and in whatever order: no two calls of \<^verbatim>\<open>onevent\<close> of one subscription carry
  events with the same id.
\<close>

theorem subscribe_onevent_at_most_once:
  "distinct (map id_evt (onevent_calls (calls (sub_run startLogin matchFilters urls tr))))"
  using dedup_inv_foldl [OF dedup_inv_subscribe, of startLogin matchFilters urls tr]
  by (simp add: dedup_inv_def sub_run_def)

theorem subscribe_onevent_at_most_once_witness:
  "map id_evt (onevent_calls (calls (sub_run False (\<lambda>_. True) [''a'', ''b'', ''a'']
     [ConnectOk 0, RelayEvent 0 ev1 True, ConnectOk 1, RelayEvent 1 ev1 True,
      BusEvent ev1, BusEvent ev3, RelayEvent 1 ev3 True])))
   = [''a1'', ''c3'']"
  using subscribe_onevent_at_most_once [of False "\<lambda>_. True" "[''a'', ''b'', ''a'']"
     "[ConnectOk 0, RelayEvent 0 ev1 True, ConnectOk 1, RelayEvent 1 ev1 True,
      BusEvent ev1, BusEvent ev3, RelayEvent 1 ev3 True]"]
  by (simp add: sub_run_def subscribe_def startSub_def sub_at_def connect_ok_def upd_sub_def
      relay_event_def handleNewEventFromInternal_def call_def Let_def ev1_def ev3_def)

subsection \<open>The end of stored events\<close>

lemma length_filter_upd_same:
  "i < length xs \<Longrightarrow> P y = P (xs ! i) \<Longrightarrow> length (filter P (xs[i := y])) = length (filter P xs)"
proof (induction xs arbitrary: i)
  case Nil
  then show ?case by simp
next
  case (Cons x xs)
  then show ?case by (cases i) simp_all
qed

lemma length_filter_upd_new:
  "i < length xs \<Longrightarrow> P y \<Longrightarrow> \<not> P (xs ! i) \<Longrightarrow>
   length (filter P (xs[i := y])) = Suc (length (filter P xs))"
proof (induction xs arbitrary: i)
  case Nil
  then show ?case by simp
next
  case (Cons x xs)
  then show ?case by (cases i) simp_all
qed

lemma all_done_iff: "(length (filter P xs) = length xs) = (\<forall>x \<in> set xs. P x)"
  by (induction xs) (auto simp: le_imp_less_Suc [OF length_filter_le] less_imp_neq dest: sym)

lemma done_count_le: "done_count s \<le> length (subPromises s)"
  by (simp add: done_count_def)

lemma eosed_all_done:
  "eose_inv s \<Longrightarrow> eosed s \<Longrightarrow> p \<in> set (subPromises s) \<Longrightarrow> is_done p"
  by (simp add: eose_inv_def done_count_def all_done_iff)

text \<open>A change of a promise that leaves it as done, or as little done, as before.\<close>

lemma eose_inv_upd_same:
  assumes "eose_inv s" "i < length (subPromises s)"
    and "is_done (f (subPromises s ! i)) = is_done (subPromises s ! i)"
    and "sub_status (f (subPromises s ! i)) = Connecting \<Longrightarrow> \<not> sub_eosed (f (subPromises s ! i))"
  shows "eose_inv (upd_sub i f s)"
proof -
  have "done_count (upd_sub i f s) = done_count s"
    using assms(2,3) by (simp add: done_count_def length_filter_upd_same)
  moreover have "\<forall>p \<in> set ((subPromises s)[i := f (subPromises s ! i)]).
      sub_status p = Connecting \<longrightarrow> \<not> sub_eosed p"
    using assms(1,4) by (auto simp: eose_inv_def dest!: set_update_subset_insert [THEN subsetD])
  ultimately show ?thesis
    using assms(1) by (simp add: eose_inv_def)
qed

text \<open>A promise becomes done, and the end of stored events is counted.\<close>

lemma eose_inv_mark_done:
  assumes inv: "eose_inv s" and i: "i < length (subPromises s)"
    and before: "\<not> is_done (subPromises s ! i)"
    and after: "is_done (f (subPromises s ! i))"
    and conn: "sub_status (f (subPromises s ! i)) \<noteq> Connecting"
  shows "eose_inv (count_eose (upd_sub i f s))"
proof -
  have not_eosed: "\<not> eosed s"
    using eosed_all_done [OF inv] before i by (auto simp: in_set_conv_nth)
  let ?s = "upd_sub i f s"
  have dc: "done_count ?s = Suc (done_count s)"
    using i before after by (simp add: done_count_def length_filter_upd_new)
  have le: "done_count ?s \<le> length (subPromises s)"
    using done_count_le [of ?s] by simp
  have conn': "\<forall>p \<in> set ((subPromises s)[i := f (subPromises s ! i)]).
      sub_status p = Connecting \<longrightarrow> \<not> sub_eosed p"
    using inv conn by (auto simp: eose_inv_def dest!: set_update_subset_insert [THEN subsetD])
  have ne: "subPromises s \<noteq> []" using i by auto
  from inv not_eosed have cnt: "eosedCount s = done_count s" "startedCount s = length (subPromises s)"
    "count_list (oneose_calls (calls s)) True = 0"
    by (simp_all add: eose_inv_def)
  show ?thesis
    using dc le conn' ne cnt not_eosed
    by (auto simp: eose_inv_def count_eose_def Let_def done_count_def oneose_calls_append)
qed

lemma eose_inv_connect_failed:
  assumes "eose_inv s" "sub_at s i (\<lambda>p. sub_status p = Connecting)"
  shows "eose_inv (connect_failed i s)"
  unfolding connect_failed_def
proof (rule eose_inv_mark_done [OF assms(1)])
  show "i < length (subPromises s)" using assms(2) by (simp add: sub_at_def)
  have "subPromises s ! i \<in> set (subPromises s)" using assms(2) by (simp add: sub_at_def)
  then show "\<not> is_done (subPromises s ! i)"
    using assms by (auto simp: sub_at_def is_done_def eose_inv_def)
qed (simp_all add: is_done_def)

lemma eose_inv_relay_oneose:
  assumes "eose_inv s" "sub_at s i (\<lambda>p. sub_status p = Open \<and> \<not> sub_eosed p)"
  shows "eose_inv (relay_oneose i s)"
  unfolding relay_oneose_def
proof (rule eose_inv_mark_done [OF assms(1)])
  show "i < length (subPromises s)" using assms(2) by (simp add: sub_at_def)
qed (use assms(2) in \<open>simp_all add: is_done_def sub_at_def\<close>)

lemma done_count_simps [simp]:
  "done_count (call c s) = done_count s"
  "done_count (s\<lparr>closedCount := a, closeReasons := b\<rparr>) = done_count s"
  "done_count (s\<lparr>hasAuthed := h\<rparr>) = done_count s"
  "done_count (s\<lparr>knownIds := k\<rparr>) = done_count s"
  by (simp_all add: done_count_def)

lemma eose_inv_call: "eose_inv s \<Longrightarrow> oneose_calls [c] = [] \<Longrightarrow> eose_inv (call c s)"
  by (simp add: eose_inv_def oneose_calls_append)

lemma eose_inv_counters:
  "eose_inv s \<Longrightarrow> eose_inv (s\<lparr>closedCount := a, closeReasons := b\<rparr>)"
  "eose_inv s \<Longrightarrow> eose_inv (s\<lparr>hasAuthed := h\<rparr>)"
  "eose_inv s \<Longrightarrow> eose_inv (s\<lparr>knownIds := k\<rparr>)"
  by (simp_all add: eose_inv_def)

lemma eose_inv_sub_close:
  assumes "eose_inv s" "i < length (subPromises s)"
  shows "eose_inv (sub_close i s)"
proof -
  have "eose_inv (upd_sub i (\<lambda>p. p\<lparr>sub_closed := True\<rparr>) s)"
    by (rule eose_inv_upd_same [OF assms])
       (use assms in \<open>auto simp: is_done_def eose_inv_def\<close>)
  then show ?thesis
    unfolding sub_close_def report_close_def Let_def
    by (simp add: eose_inv_call eose_inv_counters)
qed

lemma eose_inv_sub_close_funpow:
  "eose_inv s \<Longrightarrow> i < length (subPromises s) \<Longrightarrow> eose_inv ((sub_close i ^^ k) s)"
  by (induction k) (simp_all add: eose_inv_sub_close)

lemma eose_inv_connect_ok:
  assumes "eose_inv s" "sub_at s i (\<lambda>p. sub_status p = Connecting)"
  shows "eose_inv (connect_ok i s)"
proof -
  have i: "i < length (subPromises s)" using assms(2) by (simp add: sub_at_def)
  then have "subPromises s ! i \<in> set (subPromises s)" by simp
  then have "is_done ((subPromises s ! i)\<lparr>sub_status := Open, close_requested := 0\<rparr>)
      = is_done (subPromises s ! i)"
    using assms by (auto simp: sub_at_def is_done_def eose_inv_def)
  then have "eose_inv (upd_sub i (\<lambda>p. p\<lparr>sub_status := Open, close_requested := 0\<rparr>) s)"
    by (intro eose_inv_upd_same [OF assms(1) i]) simp_all
  then show ?thesis
    unfolding connect_ok_def using i by (simp add: eose_inv_sub_close_funpow)
qed

lemma eose_inv_relay_onclose:
  assumes "eose_inv s" "sub_at s i (\<lambda>p. sub_status p = Open)"
  shows "eose_inv (relay_onclose L i reason signer s)"
proof -
  have i: "i < length (subPromises s)" using assms(2) by (simp add: sub_at_def)
  have st: "sub_status (subPromises s ! i) = Open" using assms(2) by (simp add: sub_at_def)
  have s0: "eose_inv (upd_sub i (\<lambda>p. p\<lparr>sub_closed := True\<rparr>) s)"
    by (rule eose_inv_upd_same [OF assms(1) i]) (simp_all add: is_done_def st)
  have s0': "eose_inv (upd_sub i (\<lambda>p. p\<lparr>auth_pending := True\<rparr>) (upd_sub i (\<lambda>p. p\<lparr>sub_closed := True\<rparr>) s))"
    by (rule eose_inv_upd_same [OF s0]) (use i st in \<open>simp_all add: is_done_def\<close>)
  show ?thesis
    unfolding relay_onclose_def report_close_def Let_def
    using s0 s0' by (simp add: eose_inv_call eose_inv_counters)
qed

lemma eose_inv_startSub: "eose_inv s \<Longrightarrow> \<not> eosed s \<Longrightarrow> eose_inv (startSub u s)"
  by (auto simp: eose_inv_def startSub_def done_count_def is_done_def)

lemma eose_inv_auth_ok:
  assumes "eose_inv s" "sub_at s i auth_pending"
  shows "eose_inv (auth_ok i s)"
proof -
  have i: "i < length (subPromises s)" using assms(2) by (simp add: sub_at_def)
  have "eose_inv (upd_sub i (\<lambda>p. p\<lparr>auth_pending := False\<rparr>) s)"
    by (rule eose_inv_upd_same [OF assms(1) i])
       (use assms(1) i in \<open>auto simp: is_done_def eose_inv_def\<close>)
  then show ?thesis
    unfolding auth_ok_def Let_def
    by (simp add: eose_inv_startSub eose_inv_counters)
qed

lemma eose_inv_auth_failed:
  assumes "eose_inv s" "sub_at s i auth_pending"
  shows "eose_inv (auth_failed i s)"
  unfolding auth_failed_def
proof (rule eose_inv_upd_same [OF assms(1)])
  show i: "i < length (subPromises s)" using assms(2) by (simp add: sub_at_def)
  show "sub_status ((subPromises s ! i)\<lparr>auth_pending := False\<rparr>) = Connecting \<Longrightarrow>
        \<not> sub_eosed ((subPromises s ! i)\<lparr>auth_pending := False\<rparr>)"
    using assms(1) i by (auto simp: eose_inv_def)
qed (simp add: is_done_def)

lemma eose_inv_relay_event: "eose_inv s \<Longrightarrow> eose_inv (relay_event evt valid s)"
  by (simp add: relay_event_def Let_def eose_inv_call eose_inv_counters)

lemma eose_inv_bus: "eose_inv s \<Longrightarrow> eose_inv (handleNewEventFromInternal M evt s)"
  by (simp add: handleNewEventFromInternal_def eose_inv_call eose_inv_counters)

lemma eose_inv_close_promise:
  assumes "eose_inv s" "i < length (subPromises s)"
  shows "eose_inv (close_promise i s)"
proof (cases "sub_status (subPromises s ! i)")
  case Connecting
  have "eose_inv (upd_sub i (\<lambda>p. p\<lparr>close_requested := close_requested p + 1\<rparr>) s)"
    by (rule eose_inv_upd_same [OF assms])
       (use assms in \<open>auto simp: is_done_def eose_inv_def\<close>)
  with Connecting show ?thesis by (simp add: close_promise_def)
next
  case Open
  with assms show ?thesis by (simp add: close_promise_def eose_inv_sub_close)
next
  case Failed
  with assms show ?thesis by (simp add: close_promise_def)
qed

lemma eose_inv_fold_close_promise:
  "eose_inv s \<Longrightarrow> \<forall>i \<in> set is. i < length (subPromises s) \<Longrightarrow>
   eose_inv (fold close_promise is s)"
  by (induction "is" arbitrary: s) (simp_all add: eose_inv_close_promise)

lemma eose_inv_listening: "eose_inv s \<Longrightarrow> eose_inv (s\<lparr>listening := b\<rparr>)"
  by (auto simp: eose_inv_def done_count_def split: if_splits)

lemma eose_inv_close: "eose_inv s \<Longrightarrow> eose_inv (close s)"
  unfolding close_def
  by (rule eose_inv_fold_close_promise) (simp_all add: eose_inv_listening)

lemma eose_inv_step: "eose_inv s \<Longrightarrow> eose_inv (sub_step L M s a)"
  by (cases a)
     (simp_all add: eose_inv_connect_ok eose_inv_connect_failed eose_inv_relay_event
        eose_inv_relay_oneose eose_inv_relay_onclose eose_inv_auth_ok eose_inv_auth_failed
        eose_inv_bus eose_inv_close)

lemma eose_inv_fold_startSub:
  "eose_inv s \<Longrightarrow> \<not> eosed s \<Longrightarrow> eose_inv (fold startSub us s) \<and> \<not> eosed (fold startSub us s)"
  by (induction us arbitrary: s) (simp_all add: eose_inv_startSub)

lemma eose_inv_subscribe: "eose_inv (subscribe urls)"
  unfolding subscribe_def
  by (rule eose_inv_fold_startSub [THEN conjunct1]) (simp_all add: eose_inv_def done_count_def)

lemma eose_inv_foldl: "eose_inv s \<Longrightarrow> eose_inv (foldl (sub_step L M) s tr)"
  by (induction tr arbitrary: s) (simp_all add: eose_inv_step)

lemma eose_inv_run: "eose_inv (sub_run L M urls tr)"
  unfolding sub_run_def by (rule eose_inv_foldl [OF eose_inv_subscribe])

text \<open>
  C2, as amended. At every moment of a subscription, \<^verbatim>\<open>startedCount\<close> is the number of
  sub-subscriptions started, and the flag true has been passed to \<^verbatim>\<open>oneose\<close> exactly once
  if at least one sub-subscription was started and every one started has reached its end
  of stored events or failed to connect, and never otherwise. So the call is made at the
  moment the number of those reaches the number started, and not again.
\<close>

theorem subscribe_oneose_once:
  "startedCount (sub_run startLogin matchFilters urls tr)
     = length (subPromises (sub_run startLogin matchFilters urls tr))
   \<and> count_list (oneose_calls (calls (sub_run startLogin matchFilters urls tr))) True
     = (if 0 < startedCount (sub_run startLogin matchFilters urls tr)
          \<and> done_count (sub_run startLogin matchFilters urls tr)
              = startedCount (sub_run startLogin matchFilters urls tr)
        then 1 else 0)"
proof -
  let ?s = "sub_run startLogin matchFilters urls tr"
  have inv: "eose_inv ?s" by (rule eose_inv_run)
  then have n: "startedCount ?s = length (subPromises ?s)" by (simp add: eose_inv_def)
  have "eosed ?s = (0 < startedCount ?s \<and> done_count ?s = startedCount ?s)"
    using inv by (auto simp: eose_inv_def split: if_splits)
  moreover have "count_list (oneose_calls (calls ?s)) True = (if eosed ?s then 1 else 0)"
    using inv by (simp add: eose_inv_def)
  ultimately show ?thesis using n by simp
qed

theorem subscribe_oneose_once_witness:
  "oneose_calls (calls (sub_run False (\<lambda>_. True) [''a'', ''b'']
     [ConnectOk 0, RelayEose 0, ConnectFail 1, RelayEose 1, RelayEose 0])) = [False, True]
   \<and> done_count (sub_run False (\<lambda>_. True) [''a'', ''b'']
     [ConnectOk 0, RelayEose 0, ConnectFail 1, RelayEose 1, RelayEose 0]) = 2"
  using subscribe_oneose_once [of False "\<lambda>_. True" "[''a'', ''b'']"
     "[ConnectOk 0, RelayEose 0, ConnectFail 1, RelayEose 1, RelayEose 0]"]
  by (simp add: sub_run_def subscribe_def startSub_def sub_at_def connect_ok_def upd_sub_def
      connect_failed_def relay_oneose_def count_eose_def call_def Let_def done_count_def
      is_done_def)

text \<open>
  Without any relay the number of sub-subscriptions that are done equals the number
  started from the beginning, and \<^verbatim>\<open>oneose\<close> is not called, whatever happens.
\<close>

theorem subscribe_no_relays_no_oneose:
  "done_count (sub_run False (\<lambda>_. True) [] [ConnectFail 0, RelayEose 0, BusEvent ev1, Close])
     = startedCount (sub_run False (\<lambda>_. True) [] [ConnectFail 0, RelayEose 0, BusEvent ev1, Close])
   \<and> oneose_calls (calls (sub_run False (\<lambda>_. True) [] [ConnectFail 0, RelayEose 0, BusEvent ev1, Close])) = []"
  by (simp add: sub_run_def subscribe_def sub_at_def handleNewEventFromInternal_def call_def
      close_def done_count_def)

section \<open>Properties of the timeline store\<close>

subsection \<open>The binary search\<close>

text \<open>
  The search over a list sorted by a transitive relation \<open>P\<close>, for an event whose
  reference \<open>x\<close> the two branches of the loop place correctly: the result splits the list
  into the references that stand before \<open>x\<close> and those that \<open>x\<close> stands before.
\<close>

lemma bsearch_done: "\<not> left < right \<Longrightarrow> bsearch rs evt left right = Some left"
  by (subst bsearch.simps) simp

lemma bsearch_step:
  "left < right \<Longrightarrow>
   bsearch rs evt left right =
     (if created_at evt = snd (rs ! ((left + right) div 2))
         \<and> id_evt evt = fst (rs ! ((left + right) div 2))
      then None
      else if created_at evt > snd (rs ! ((left + right) div 2))
              \<or> (created_at evt = snd (rs ! ((left + right) div 2))
                  \<and> id_evt evt < fst (rs ! ((left + right) div 2)))
      then bsearch rs evt left ((left + right) div 2)
      else bsearch rs evt ((left + right) div 2 + 1) right)"
  by (subst bsearch.simps) simp

lemma bsearch_split:
  assumes tr: "transp P" and srt: "sorted_wrt P rs"
    and go_left: "\<And>r. r \<in> set rs \<Longrightarrow>
        created_at evt > snd r \<or> (created_at evt = snd r \<and> id_evt evt < fst r) \<Longrightarrow> P x r"
    and go_right: "\<And>r. r \<in> set rs \<Longrightarrow> \<not> (created_at evt = snd r \<and> id_evt evt = fst r) \<Longrightarrow>
        \<not> (created_at evt > snd r \<or> (created_at evt = snd r \<and> id_evt evt < fst r)) \<Longrightarrow> P r x"
  shows "left \<le> right \<Longrightarrow> right \<le> length rs \<Longrightarrow>
         (\<forall>i < left. P (rs ! i) x) \<Longrightarrow> (\<forall>i. right \<le> i \<and> i < length rs \<longrightarrow> P x (rs ! i)) \<Longrightarrow>
         bsearch rs evt left right = Some k \<Longrightarrow>
         k \<le> length rs \<and> (\<forall>i < k. P (rs ! i) x) \<and> (\<forall>i. k \<le> i \<and> i < length rs \<longrightarrow> P x (rs ! i))"
  using tr srt go_left go_right
proof (induction rs evt left right rule: bsearch.induct)
  case (1 rs evt left right)
  let ?mid = "(left + right) div 2"
  show ?case
  proof (cases "left < right")
    case False
    with "1.prems"(1-5) show ?thesis by (simp add: bsearch_done)
  next
    case True
    then have mid: "left \<le> ?mid" "?mid < right" "?mid < length rs"
      using "1.prems"(2) by auto
    then have mem: "rs ! ?mid \<in> set rs" by simp
    let ?hit = "created_at evt = snd (rs ! ?mid) \<and> id_evt evt = fst (rs ! ?mid)"
    let ?lt = "created_at evt > snd (rs ! ?mid)
               \<or> (created_at evt = snd (rs ! ?mid) \<and> id_evt evt < fst (rs ! ?mid))"
    from "1.prems"(5) True have nohit: "\<not> ?hit"
      by (auto simp: bsearch_step split: if_splits)
    show ?thesis
    proof (cases ?lt)
      case True
      have res: "bsearch rs evt left ?mid = Some k"
        using "1.prems"(5) \<open>left < right\<close> nohit True
        by (simp add: bsearch_step)
      have px: "P x (rs ! ?mid)" using "1.prems"(8) [OF mem True] .
      have right': "\<forall>i. ?mid \<le> i \<and> i < length rs \<longrightarrow> P x (rs ! i)"
      proof (intro allI impI)
        fix i assume i: "?mid \<le> i \<and> i < length rs"
        show "P x (rs ! i)"
        proof (cases "i = ?mid")
          case True
          with px show ?thesis by simp
        next
          case False
          with i have "P (rs ! ?mid) (rs ! i)"
            using sorted_wrt_nth_less [OF "1.prems"(7), of ?mid i] by simp
          with px show ?thesis using "1.prems"(6) by (auto dest: transpD)
        qed
      qed
      show ?thesis
        by (rule "1.IH"(1) [OF \<open>left < right\<close> nohit True _ _ "1.prems"(3) right' res
              "1.prems"(6,7,8,9)])
           (use mid in simp_all)
    next
      case False
      have res: "bsearch rs evt (?mid + 1) right = Some k"
        using "1.prems"(5) \<open>left < right\<close> nohit False
        by (simp add: bsearch_step)
      have px: "P (rs ! ?mid) x" using "1.prems"(9) [OF mem nohit False] .
      have left': "\<forall>i < ?mid + 1. P (rs ! i) x"
      proof (intro allI impI)
        fix i assume i: "i < ?mid + 1"
        show "P (rs ! i) x"
        proof (cases "i = ?mid")
          case True
          with px show ?thesis by simp
        next
          case False
          with i mid have "P (rs ! i) (rs ! ?mid)"
            using sorted_wrt_nth_less [OF "1.prems"(7), of i ?mid] by simp
          with px show ?thesis using "1.prems"(6) by (auto dest: transpD)
        qed
      qed
      show ?thesis
        by (rule "1.IH"(2) [OF \<open>left < right\<close> nohit False _ "1.prems"(2) left' "1.prems"(4) res
              "1.prems"(6,7,8,9)])
           (use mid in simp_all)
    qed
  qed
qed

lemma sorted_wrt_splice:
  assumes "sorted_wrt P rs" "k \<le> length rs"
    and "\<forall>i < k. P (rs ! i) x" "\<forall>i. k \<le> i \<and> i < length rs \<longrightarrow> P x (rs ! i)"
  shows "sorted_wrt P (take k rs @ [x] @ drop k rs)"
proof -
  have "sorted_wrt P (take k rs @ drop k rs)" using assms(1) by simp
  then have parts: "sorted_wrt P (take k rs)" "sorted_wrt P (drop k rs)"
    "\<forall>a \<in> set (take k rs). \<forall>b \<in> set (drop k rs). P a b"
    unfolding sorted_wrt_append by blast+
  have l: "\<forall>a \<in> set (take k rs). P a x"
    using assms(2,3) by (auto simp: in_set_conv_nth)
  have r: "\<forall>b \<in> set (drop k rs). P x b"
    using assms(2,4) by (auto simp: in_set_conv_nth)
  show ?thesis using parts l r by (simp add: sorted_wrt_append)
qed

lemma insert_ref_sorted_wrt:
  assumes "transp P" "sorted_wrt P rs"
    and "\<And>r. r \<in> set rs \<Longrightarrow>
        created_at evt > snd r \<or> (created_at evt = snd r \<and> id_evt evt < fst r) \<Longrightarrow> P (ref_of evt) r"
    and "\<And>r. r \<in> set rs \<Longrightarrow> \<not> (created_at evt = snd r \<and> id_evt evt = fst r) \<Longrightarrow>
        \<not> (created_at evt > snd r \<or> (created_at evt = snd r \<and> id_evt evt < fst r)) \<Longrightarrow> P r (ref_of evt)"
  shows "sorted_wrt P (insert_ref rs evt)"
proof (cases "bsearch rs evt 0 (length rs)")
  case None
  then show ?thesis using assms(2) by (simp add: insert_ref_def)
next
  case (Some k)
  have "k \<le> length rs \<and> (\<forall>i < k. P (rs ! i) (ref_of evt))
      \<and> (\<forall>i. k \<le> i \<and> i < length rs \<longrightarrow> P (ref_of evt) (rs ! i))"
    by (rule bsearch_split [OF assms(1,2) assms(3) assms(4) _ _ _ _ Some]) auto
  then have "sorted_wrt P (take k rs @ [ref_of evt] @ drop k rs)"
    using sorted_wrt_splice [OF assms(2), of k "ref_of evt"] by simp
  then show ?thesis using Some assms(2) by (simp add: insert_ref_def)
qed

lemma transp_before: "transp before"
  by (auto simp: transp_def before_def)

lemma transp_desc: "transp (\<lambda>a b :: TTimelineRef. snd a \<ge> snd b)"
  by (auto simp: transp_def)

lemma insert_ref_desc: "desc_refs rs \<Longrightarrow> desc_refs (insert_ref rs evt)"
  unfolding desc_refs_def
  by (rule insert_ref_sorted_wrt [OF transp_desc]) (auto simp: ref_of_def)

lemma insert_ref_before: "sorted_wrt before rs \<Longrightarrow> sorted_wrt before (insert_ref rs evt)"
  by (rule insert_ref_sorted_wrt [OF transp_before]) (auto simp: ref_of_def before_def)

lemma sorted_wrt_before_distinct: "sorted_wrt before rs \<Longrightarrow> distinct rs"
  by (induction rs) (auto simp: before_def)

text \<open>In a list in timeline order the search finds a reference that is there.\<close>

lemma bsearch_finds:
  assumes "sorted_wrt before rs" "ref_of evt \<in> set rs"
  shows "bsearch rs evt 0 (length rs) = None"
proof (rule ccontr)
  assume "bsearch rs evt 0 (length rs) \<noteq> None"
  then obtain k where k: "bsearch rs evt 0 (length rs) = Some k" by blast
  have gl: "before (ref_of evt) r"
    if "created_at evt > snd r \<or> (created_at evt = snd r \<and> id_evt evt < fst r)" for r
    using that by (auto simp: ref_of_def before_def)
  have gr: "before r (ref_of evt)"
    if "\<not> (created_at evt = snd r \<and> id_evt evt = fst r)"
       "\<not> (created_at evt > snd r \<or> (created_at evt = snd r \<and> id_evt evt < fst r))" for r
    using that by (auto simp: ref_of_def before_def)
  have b0: "\<forall>i < (0::nat). before (rs ! i) (ref_of evt)" by simp
  have b1: "\<forall>i. length rs \<le> i \<and> i < length rs \<longrightarrow> before (ref_of evt) (rs ! i)" by auto
  have split: "k \<le> length rs \<and> (\<forall>i < k. before (rs ! i) (ref_of evt))
      \<and> (\<forall>i. k \<le> i \<and> i < length rs \<longrightarrow> before (ref_of evt) (rs ! i))"
    by (rule bsearch_split [OF transp_before assms(1) gl gr le0 order_refl b0 b1 k])
  from assms(2) obtain j where j: "j < length rs" "rs ! j = ref_of evt"
    by (auto simp: in_set_conv_nth)
  then have "before (ref_of evt) (ref_of evt)"
    using split by (cases "j < k") (auto dest: spec [of _ j])
  then show False by (simp add: before_def)
qed

lemma insert_ref_present:
  "sorted_wrt before rs \<Longrightarrow> ref_of evt \<in> set rs \<Longrightarrow> insert_ref rs evt = rs"
  by (simp add: insert_ref_def bsearch_finds)

text \<open>For an event older than every reference the search ends at the right bound.\<close>

lemma bsearch_too_old:
  "\<forall>r \<in> set rs. created_at evt < snd r \<Longrightarrow> left \<le> right \<Longrightarrow> right \<le> length rs \<Longrightarrow>
   bsearch rs evt left right = Some right"
proof (induction rs evt left right rule: bsearch.induct)
  case (1 rs evt left right)
  show ?case
  proof (cases "left < right")
    case False
    with "1.prems" show ?thesis by (simp add: bsearch_done)
  next
    case True
    let ?mid = "(left + right) div 2"
    from True "1.prems" have mid: "?mid < length rs" "?mid + 1 \<le> right" by auto
    then have older: "created_at evt < snd (rs ! ?mid)" using "1.prems"(1) by simp
    then have "bsearch rs evt (?mid + 1) right = Some right"
      using "1.IH"(2) [OF True _ _ "1.prems"(1) mid(2) "1.prems"(3)] by simp
    then show ?thesis
      using True older by (simp add: bsearch_step)
  qed
qed

lemma insert_ref_too_old: "\<forall>r \<in> set rs. created_at evt < snd r \<Longrightarrow> insert_ref rs evt = rs"
  using bsearch_too_old [of rs evt 0 "length rs"] by (simp add: insert_ref_def)

lemma insert_ref_ids:
  assumes "sorted_wrt before rs" "distinct (map fst rs)"
    and "\<forall>r \<in> set rs. fst r = id_evt evt \<longrightarrow> snd r = created_at evt"
  shows "distinct (map fst (insert_ref rs evt))"
proof (cases "ref_of evt \<in> set rs")
  case True
  then show ?thesis using assms by (simp add: insert_ref_present)
next
  case False
  then have new: "id_evt evt \<notin> fst ` set rs"
    using assms(3) by (force simp: ref_of_def)
  have "distinct (map fst (take k rs @ [ref_of evt] @ drop k rs))" for k
  proof -
    have "distinct (map fst (take k rs) @ map fst (drop k rs))"
      using assms(2) by (simp only: map_append [symmetric] append_take_drop_id)
    then have "distinct (map fst (take k rs)) \<and> distinct (map fst (drop k rs))
        \<and> set (map fst (take k rs)) \<inter> set (map fst (drop k rs)) = {}"
      by (simp only: distinct_append)
    moreover have "id_evt evt \<notin> fst ` set (take k rs)" "id_evt evt \<notin> fst ` set (drop k rs)"
      using new by (auto dest: in_set_takeD in_set_dropD)
    ultimately show ?thesis by (auto simp: ref_of_def)
  qed
  then show ?thesis using assms(2) by (simp add: insert_ref_def split: option.splits)
qed

subsection \<open>The order of the references\<close>

lemma sort_desc_sorted: "sorted_wrt (\<lambda>a b. created_at a \<ge> created_at b) (sort_desc evs)"
proof -
  have "sorted (map (\<lambda>e. - created_at e) (sort_key (\<lambda>e. - created_at e) evs))"
    by (rule sorted_sort_key)
  then show ?thesis by (simp add: sort_desc_def sorted_wrt_map)
qed

lemma set_sort_desc [simp]: "set (sort_desc evs) = set evs"
  by (simp add: sort_desc_def)

lemma desc_refs_map:
  "sorted_wrt (\<lambda>a b. created_at a \<ge> created_at b) evs \<Longrightarrow> desc_refs (map ref_of evs)"
  by (simp add: desc_refs_def sorted_wrt_map ref_of_def)

lemma desc_refs_page: "desc_refs (map ref_of (filter Q (take n (sort_desc evs))))"
  by (intro desc_refs_map sorted_wrt_filter sorted_wrt_take sort_desc_sorted)

lemma desc_refs_page': "desc_refs (map ref_of (take n (sort_desc evs)))"
  by (intro desc_refs_map sorted_wrt_take sort_desc_sorted)

lemma desc_refs_append:
  "desc_refs xs \<Longrightarrow> desc_refs ys \<Longrightarrow> (\<forall>x \<in> set xs. \<forall>y \<in> set ys. snd x \<ge> snd y) \<Longrightarrow>
   desc_refs (xs @ ys)"
  by (simp add: desc_refs_def sorted_wrt_append)

lemma desc_refs_first: "desc_refs (r # rs) \<Longrightarrow> y \<in> set (r # rs) \<Longrightarrow> snd r \<ge> snd y"
  by (auto simp: desc_refs_def)

lemma desc_refs_last: "desc_refs rs \<Longrightarrow> y \<in> set rs \<Longrightarrow> snd y \<ge> snd (last rs)"
proof (induction rs)
  case Nil
  then show ?case by simp
next
  case (Cons r rs)
  then show ?case by (cases "rs = []") (auto simp: desc_refs_def)
qed

lemma timeline_of_callbacks [simp]:
  "timeline_of (tl_onEvents evs e s) = timeline_of s"
  "timeline_of (tl_onNew evt s) = timeline_of s"
  by (simp_all add: tl_onEvents_def tl_onNew_def)

lemma desc_entry_tl_onevent:
  "desc_entry (timeline_of s) \<Longrightarrow> desc_entry (timeline_of (tl_onevent lib s evt))"
  by (auto simp: tl_onevent_def Let_def insert_ref_desc split: option.splits timeline_entry.splits)

lemma desc_entry_tl_oneose:
  assumes "desc_entry (timeline_of s)"
  shows "desc_entry (timeline_of (tl_oneose needSort limit flt urls now s e))"
proof -
  have merge: "desc_refs (map ref_of (filter (\<lambda>evt. created_at evt > b) evs) @ (a, b) # rs)"
    if "desc_refs ((a, b) # rs)" "sorted_wrt (\<lambda>a b. created_at a \<ge> created_at b) evs"
    for a b rs evs
  proof (rule desc_refs_append)
    show "desc_refs (map ref_of (filter (\<lambda>evt. created_at evt > b) evs))"
      by (intro desc_refs_map sorted_wrt_filter that(2))
    show "desc_refs ((a, b) # rs)" by (rule that(1))
    show "\<forall>x \<in> set (map ref_of (filter (\<lambda>evt. created_at evt > b) evs)).
            \<forall>y \<in> set ((a, b) # rs). snd x \<ge> snd y"
      using desc_refs_first [OF that(1)] by (fastforce simp: ref_of_def)
  qed
  show ?thesis
    using assms
    by (auto simp: tl_oneose_def Let_def desc_refs_page desc_refs_page'
        intro!: merge sort_desc_sorted sorted_wrt_take desc_refs_map sorted_wrt_filter
        split: timeline_entry.splits list.splits)
qed

lemma desc_refs_loadMore:
  assumes "desc_refs (refs tline)"
  shows "desc_refs (refs (fst (snd (loadMoreTimeline' lib fetch query now tline c until limit))))"
proof -
  have push: "desc_refs (refs tline @ map ref_of (filter (\<lambda>evt. created_at evt < b) (take n (sort_desc xs))))"
    if "refs tline \<noteq> [] \<Longrightarrow> b = snd (last (refs tline))" for b n xs
  proof (rule desc_refs_append [OF assms desc_refs_page])
    show "\<forall>x \<in> set (refs tline).
            \<forall>y \<in> set (map ref_of (filter (\<lambda>evt. created_at evt < b) (take n (sort_desc xs)))).
              snd x \<ge> snd y"
    proof (intro ballI)
      fix x y
      assume x: "x \<in> set (refs tline)"
        and y: "y \<in> set (map ref_of (filter (\<lambda>evt. created_at evt < b) (take n (sort_desc xs))))"
      from x have "refs tline \<noteq> []" by auto
      then have "b = snd (last (refs tline))" by (rule that)
      moreover have "snd x \<ge> snd (last (refs tline))" using desc_refs_last [OF assms x] .
      moreover have "snd y < b" using y by (auto simp: ref_of_def)
      ultimately show "snd x \<ge> snd y" by simp
    qed
  qed
  show ?thesis
    using assms by (simp add: loadMoreTimeline'_def Let_def push)
qed

lemma desc_entry_start:
  "timeline_of (subscribeTimeline' fetch needSort limit entry c) = entry"
  by (simp add: subscribeTimeline'_def Let_def split: timeline_entry.splits prod.splits list.splits)

lemma desc_entry_step:
  "desc_entry (timeline_of s) \<Longrightarrow> desc_entry (timeline_of (tl_step lib needSort limit flt urls s a))"
  by (cases a) (simp_all add: desc_entry_tl_onevent desc_entry_tl_oneose tl_closer_def)

lemma desc_entry_foldl:
  "desc_entry (timeline_of s) \<Longrightarrow>
   desc_entry (timeline_of (foldl (tl_step lib needSort limit flt urls) s tr))"
  by (induction tr arbitrary: s) (simp_all add: desc_entry_step)

lemma insert_ref_example:
  "insert_ref [(''c3'', 150), (''a1'', 100)] ev2 = [(''b2'', 200), (''c3'', 150), (''a1'', 100)]"
  by code_simp

text \<open>
  What does hold of the cached reference list. It is at all times sorted descending by
  \<^verbatim>\<open>created_at\<close>: the callbacks of \<^verbatim>\<open>_subscribeTimeline\<close> and
  \<^verbatim>\<open>_loadMoreTimeline\<close> keep it so. Where the list is in timeline order (descending by
  \<^verbatim>\<open>created_at\<close>, ties ascending by id), the binary-search insertion of a live event
  keeps it in that order and free of duplicate references, and of duplicate ids when the
  id of the event does not occur with another timestamp; inserting an event whose
  reference is present changes nothing. Inserting an event older than every reference
  changes nothing, whatever the order.
\<close>

lemma refs_order_kept:
  "(desc_entry entry \<longrightarrow>
      desc_entry (timeline_of (foldl (tl_step lib needSort limit flt urls)
        (subscribeTimeline' fetch needSort limit entry c) tr)))
   \<and> (desc_refs (refs tline) \<longrightarrow>
      desc_refs (refs (fst (snd (loadMoreTimeline' lib fetch query now tline c until limit)))))
   \<and> (sorted_wrt before rs \<longrightarrow>
        sorted_wrt before (insert_ref rs evt) \<and> distinct (insert_ref rs evt)
      \<and> (ref_of evt \<in> set rs \<longrightarrow> insert_ref rs evt = rs)
      \<and> (distinct (map fst rs) \<and> (\<forall>r \<in> set rs. fst r = id_evt evt \<longrightarrow> snd r = created_at evt)
           \<longrightarrow> distinct (map fst (insert_ref rs evt))))
   \<and> ((\<forall>r \<in> set rs. created_at evt < snd r) \<longrightarrow> insert_ref rs evt = rs)"
proof (intro conjI impI)
  assume "desc_entry entry"
  then show "desc_entry (timeline_of (foldl (tl_step lib needSort limit flt urls)
        (subscribeTimeline' fetch needSort limit entry c) tr))"
    by (intro desc_entry_foldl) (simp add: desc_entry_start)
next
  assume "desc_refs (refs tline)"
  then show "desc_refs (refs (fst (snd (loadMoreTimeline' lib fetch query now tline c until limit))))"
    by (rule desc_refs_loadMore)
next
  assume "sorted_wrt before rs"
  then show "sorted_wrt before (insert_ref rs evt)" by (rule insert_ref_before)
  then show "distinct (insert_ref rs evt)" by (rule sorted_wrt_before_distinct)
next
  assume "sorted_wrt before rs" "ref_of evt \<in> set rs"
  then show "insert_ref rs evt = rs" by (rule insert_ref_present)
next
  assume "sorted_wrt before rs"
    "distinct (map fst rs) \<and> (\<forall>r \<in> set rs. fst r = id_evt evt \<longrightarrow> snd r = created_at evt)"
  then show "distinct (map fst (insert_ref rs evt))" by (simp add: insert_ref_ids)
next
  assume "\<forall>r \<in> set rs. created_at evt < snd r"
  then show "insert_ref rs evt = rs" by (rule insert_ref_too_old)
qed

lemma refs_order_kept_example:
  "sorted_wrt before [(''c3'', 150), (''a1'', 100)]
   \<and> insert_ref [(''c3'', 150), (''a1'', 100)] ev2 = [(''b2'', 200), (''c3'', 150), (''a1'', 100)]
   \<and> sorted_wrt before (insert_ref [(''c3'', 150), (''a1'', 100)] ev2)
   \<and> distinct (map fst (insert_ref [(''c3'', 150), (''a1'', 100)] ev2))"
  using refs_order_kept [where rs = "[(''c3'', 150), (''a1'', 100)]" and evt = ev2]
    insert_ref_example
  by (simp add: before_def ev2_def)

text \<open>
  C4. The binary-search insertion takes the references to be in timeline order
  (descending by \<^verbatim>\<open>created_at\<close>, ties ascending by id), but the end of stored events
  stores them sorted by \<^verbatim>\<open>created_at\<close> only, ties in the order of arrival.

  Three notes of the same second reach a timeline without cache in the order \<open>c9\<close>,
  \<open>b4\<close>, \<open>a1\<close>: at the end of stored events their references are stored in this order,
  which is not the timeline order. The key is subscribed again when the notes have left
  the event cache and the loader finds none of them; the relays signal the end of stored
  events and then deliver \<open>a1\<close>. The search compares \<open>a1\<close> with \<open>b4\<close> and \<open>c9\<close>, does not
  reach its reference, and the reference is inserted a second time: the list holds the
  id \<open>a1\<close> twice.
\<close>

theorem timeline_refs_duplicate_id:
  "timeline_of (foldl (tl_step spec_lib True 10 [] [''u''])
      (subscribeTimeline' (\<lambda>_. None) True 10 Absent no_caches)
      [TlEvent ev5, TlEvent ev4, TlEvent ev1, TlEose True 500])
     = Timeline \<lparr>refs = [(''c9'', 100), (''b4'', 100), (''a1'', 100)],
                 filter_tl = [], urls_tl = [''u'']\<rparr>
   \<and> \<not> sorted_wrt before [(''c9'', 100), (''b4'', 100), (''a1'', 100)]
   \<and> timeline_of (foldl (tl_step spec_lib True 10 [] [''u''])
      (subscribeTimeline' (\<lambda>_. None) True 10
         (Timeline \<lparr>refs = [(''c9'', 100), (''b4'', 100), (''a1'', 100)],
                    filter_tl = [], urls_tl = [''u'']\<rparr>) no_caches)
      [TlEose True 600, TlEvent ev1])
     = Timeline \<lparr>refs = [(''a1'', 100), (''c9'', 100), (''b4'', 100), (''a1'', 100)],
                 filter_tl = [], urls_tl = [''u'']\<rparr>
   \<and> insert_ref [(''c9'', 100), (''b4'', 100), (''a1'', 100)] ev1
     = [(''a1'', 100), (''c9'', 100), (''b4'', 100), (''a1'', 100)]
   \<and> \<not> distinct (map fst [(''a1'', 100::int), (''c9'', 100), (''b4'', 100), (''a1'', 100)])"
proof -
  have ins: "insert_ref [(''c9'', 100), (''b4'', 100), (''a1'', 100)] ev1
     = [(''a1'', 100), (''c9'', 100), (''b4'', 100), (''a1'', 100)]"
    by code_simp
  have first: "timeline_of (foldl (tl_step spec_lib True 10 [] [''u''])
      (subscribeTimeline' (\<lambda>_. None) True 10 Absent no_caches)
      [TlEvent ev5, TlEvent ev4, TlEvent ev1, TlEose True 500])
     = Timeline \<lparr>refs = [(''c9'', 100), (''b4'', 100), (''a1'', 100)],
                 filter_tl = [], urls_tl = [''u'']\<rparr>"
    by (simp add: subscribeTimeline'_def tl_onevent_def tl_oneose_def Let_def tl_onEvents_def
        sort_desc_def ref_of_def ev1_def ev4_def ev5_def)
  have second: "timeline_of (foldl (tl_step spec_lib True 10 [] [''u''])
      (subscribeTimeline' (\<lambda>_. None) True 10
         (Timeline \<lparr>refs = [(''c9'', 100), (''b4'', 100), (''a1'', 100)],
                    filter_tl = [], urls_tl = [''u'']\<rparr>) no_caches)
      [TlEose True 600, TlEvent ev1])
     = Timeline \<lparr>refs = insert_ref [(''c9'', 100), (''b4'', 100), (''a1'', 100)] ev1,
                 filter_tl = [], urls_tl = [''u'']\<rparr>"
    by (simp add: subscribeTimeline'_def tl_onevent_def tl_oneose_def Let_def tl_onEvents_def
        sort_desc_def load_event_def no_caches_def)
  show ?thesis
    using first second ins by (simp add: before_def)
qed

subsection \<open>Loading more\<close>









section \<open>Properties of closing\<close>

lemma count_eose_listening: "listening (count_eose s) = listening s"
  by (simp add: count_eose_def Let_def)

lemma not_listening_step: "\<not> listening s \<Longrightarrow> \<not> listening (sub_step L M s a)"
  by (cases a)
     (simp_all add: connect_ok_def connect_failed_def relay_event_def relay_oneose_def
        relay_onclose_def auth_ok_def auth_failed_def Let_def)

lemma not_listening_foldl: "\<not> listening s \<Longrightarrow> \<not> listening (foldl (sub_step L M) s tr)"
  by (induction tr arbitrary: s) (simp_all add: not_listening_step)

lemma bus_ignored:
  "\<not> listening s \<Longrightarrow>
   foldl (sub_step L M) s tr = foldl (sub_step L M) s (filter (\<lambda>a. \<not> is_bus a) tr)"
proof (induction tr arbitrary: s)
  case Nil
  then show ?case by simp
next
  case (Cons a tr)
  show ?case
  proof (cases "is_bus a")
    case True
    then obtain evt where "a = BusEvent evt" by (cases a) simp_all
    then show ?thesis using Cons by simp
  next
    case False
    then show ?thesis using Cons.IH [OF not_listening_step [OF Cons.prems]] by simp
  qed
qed

text \<open>
  What \<^verbatim>\<open>close\<close> of a subscription achieves: the listener of the event bus is detached at
  once and stays so, and the announcements of the bus have no effect afterwards.
\<close>

lemma close_detaches_listener:
  "\<not> listening (foldl (sub_step L M) (close s) tr)
   \<and> foldl (sub_step L M) (close s) tr
       = foldl (sub_step L M) (close s) (filter (\<lambda>a. \<not> is_bus a) tr)"
proof -
  have nl: "\<not> listening (close s)" by simp
  show ?thesis
    using not_listening_foldl [OF nl, of L M tr] bus_ignored [OF nl, of L M tr] by simp
qed

lemma tl_cleared_step:
  "cleared_tl t \<Longrightarrow>
   cleared_tl (tl_step lib needSort limit flt urls t a)
   \<and> onEvents_tl (tl_step lib needSort limit flt urls t a) = onEvents_tl t
   \<and> onNew_tl (tl_step lib needSort limit flt urls t a) = onNew_tl t"
  by (cases a)
     (auto simp: tl_onevent_def tl_oneose_def tl_closer_def tl_onEvents_def tl_onNew_def Let_def
        split: option.splits timeline_entry.splits list.splits)

lemma tl_cleared_foldl:
  "cleared_tl t \<Longrightarrow>
   onEvents_tl (foldl (tl_step lib needSort limit flt urls) t tr) = onEvents_tl t
   \<and> onNew_tl (foldl (tl_step lib needSort limit flt urls) t tr) = onNew_tl t"
proof (induction tr arbitrary: t)
  case Nil
  then show ?case by simp
next
  case (Cons a tr)
  from tl_cleared_step [OF Cons.prems, of lib needSort limit flt urls a]
  show ?case using Cons.IH [of "tl_step lib needSort limit flt urls t a"] by simp
qed

lemma agg_cleared_step:
  "cleared_agg g \<Longrightarrow>
   cleared_agg (agg_step n g a)
   \<and> onEvents_calls (agg_step n g a) = onEvents_calls g
   \<and> onNew_calls (agg_step n g a) = onNew_calls g"
  by (cases a)
     (simp_all add: sub_onEvents_def sub_onNew_def call_onEvents_def call_onNew_def
        agg_closer_def Let_def)

lemma agg_cleared_foldl:
  "cleared_agg g \<Longrightarrow>
   onEvents_calls (foldl (agg_step n) g tr) = onEvents_calls g
   \<and> onNew_calls (foldl (agg_step n) g tr) = onNew_calls g"
proof (induction tr arbitrary: g)
  case Nil
  then show ?case by simp
next
  case (Cons a tr)
  from agg_cleared_step [OF Cons.prems, of n a]
  show ?case using Cons.IH [of "agg_step n g a"] by simp
qed

text \<open>
  The closers of a timeline subscription and of the aggregator do overwrite \<^verbatim>\<open>onEvents\<close>
  and \<^verbatim>\<open>onNew\<close>: whatever arrives afterwards, the caller's two functions are not called
  again. Each call of a closer calls the closers below once more.
\<close>

lemma closers_clear_callbacks:
  "onEvents_tl (foldl (tl_step lib needSort limit flt urls) (tl_closer t) ttr) = onEvents_tl t
   \<and> onNew_tl (foldl (tl_step lib needSort limit flt urls) (tl_closer t) ttr) = onNew_tl t
   \<and> onEvents_calls (foldl (agg_step n) (agg_closer n g) gtr) = onEvents_calls g
   \<and> onNew_calls (foldl (agg_step n) (agg_closer n g) gtr) = onNew_calls g"
proof -
  have ct: "cleared_tl (tl_closer t)" by (simp add: tl_closer_def)
  have cg: "cleared_agg (agg_closer n g)" by (simp add: agg_closer_def)
  show ?thesis
    using tl_cleared_foldl [OF ct, of lib needSort limit flt urls ttr]
      agg_cleared_foldl [OF cg, of n gtr]
    by (simp add: tl_closer_def agg_closer_def)
qed

lemma closers_called_again:
  "subCloser_closes (tl_closer (tl_closer t)) = subCloser_closes t + 2
   \<and> closer_calls (agg_run 2 [Closer, Closer]) = [0, 1, 0, 1]"
  by (simp add: tl_closer_def agg_run_def agg_init_def agg_closer_def upt_rec)

text \<open>
  C9. \<^verbatim>\<open>close\<close> of a subscription leaves the callbacks of the caller in place and reaches
  only the promises that \<^verbatim>\<open>subPromises\<close> holds when it is called.

  A subscription over the relays \<open>a\<close> and \<open>b\<close>, with a signer: \<open>a\<close> is connected and closes
  its sub-subscription with \<^verbatim>\<open>auth-required\<close>, so that \<^verbatim>\<open>relay.auth\<close> is started; \<open>b\<close> is
  still connecting. Now \<^verbatim>\<open>close\<close> is called: \<^verbatim>\<open>sub.close()\<close> on the sub-subscription of \<open>a\<close>
  calls \<^verbatim>\<open>onclose\<close> of the caller. Then the connection to \<open>b\<close> fails, and \<^verbatim>\<open>oneose\<close> is
  called; the authentication succeeds, and \<^verbatim>\<open>startSub\<close> pushes a third promise; its
  sub-subscription is opened and delivers an event, and \<^verbatim>\<open>onevent\<close> is called. That
  sub-subscription is not closed.

  A subscription over one relay that is still connecting is closed; the connection fails:
  \<^verbatim>\<open>oneose\<close> is called after \<^verbatim>\<open>close\<close>.

  A subscription over one connected relay is closed twice: \<^verbatim>\<open>onclose\<close> and \<^verbatim>\<open>onAllClose\<close>
  are called on each of the two calls, so that the second call is not without effect.
\<close>

theorem close_leaves_callbacks:
  "calls (sub_run False (\<lambda>_. True) [''a'', ''b'']
      [ConnectOk 0, RelayClosed 0 ''auth-required: sign in'' True, Close])
     = [OnClose ''a'' ''closed by caller'']
   \<and> calls (sub_run False (\<lambda>_. True) [''a'', ''b'']
      ([ConnectOk 0, RelayClosed 0 ''auth-required: sign in'' True, Close]
       @ [ConnectFail 1, AuthOk 0, ConnectOk 2, RelayEvent 2 ev1 True]))
     = [OnClose ''a'' ''closed by caller'', OnEose False, OnEvent ev1]
   \<and> map sub_closed (subPromises (sub_run False (\<lambda>_. True) [''a'', ''b'']
      ([ConnectOk 0, RelayClosed 0 ''auth-required: sign in'' True, Close]
       @ [ConnectFail 1, AuthOk 0, ConnectOk 2, RelayEvent 2 ev1 True])))
     = [True, False, False]
   \<and> calls (sub_run False (\<lambda>_. True) [''a''] [Close, ConnectFail 0]) = [OnEose True]
   \<and> calls (sub_run False (\<lambda>_. True) [''a''] [ConnectOk 0, Close])
     = [OnClose ''a'' ''closed by caller'', OnAllClose [''closed by caller'']]
   \<and> calls (sub_run False (\<lambda>_. True) [''a''] [ConnectOk 0, Close, Close])
     = [OnClose ''a'' ''closed by caller'', OnAllClose [''closed by caller''],
        OnClose ''a'' ''closed by caller'',
        OnAllClose [''closed by caller'', ''closed by caller'']]"
  by (simp add: sub_run_def subscribe_def startSub_def sub_at_def connect_ok_def upd_sub_def
      relay_onclose_def close_def close_promise_def sub_close_def report_close_def
      connect_failed_def count_eose_def call_def auth_ok_def relay_event_def Let_def ev1_def
      upt_rec)

section \<open>Properties of timeline keys\<close>

lemma stableFilter_kinds:
  "stableFilter [(''kinds'', Nums ks)] = [(''kinds'', Nums ks)]"
  by (simp add: stableFilter_def stable_entry_def)

lemma entry_text_kinds_16: "entry_text (''kinds'', Nums [1, 6]) = ''kinds,1,6''"
  by (simp add: entry_text_def show_int_def show_nat.simps digit_def)

lemma entry_text_kinds_61: "entry_text (''kinds'', Nums [6, 1]) = ''kinds,6,1''"
  by (simp add: entry_text_def show_int_def show_nat.simps digit_def)

text \<open>
  C8 fails on the code. For two filters that differ only in the order of their
  \<^verbatim>\<open>kinds\<close> array, \<^verbatim>\<open>stableFilter\<close> keeps each array in its own order, since the sorted copy
  is overwritten by the value itself. The objects that are hashed differ: the two keys are
  equal only if the digest maps the two objects to the same string, and a digest that
  writes the object out gives two keys.
\<close>

theorem generateTimelineKey_keeps_array_order:
  "stableFilter [(''kinds'', Nums [1, 6])] = [(''kinds'', Nums [1, 6])]
   \<and> stableFilter [(''kinds'', Nums [6, 1])] = [(''kinds'', Nums [6, 1])]
   \<and> (generateTimelineKey digest [''wss://a/''] [(''kinds'', Nums [1, 6])]
        = generateTimelineKey digest [''wss://a/''] [(''kinds'', Nums [6, 1])])
     = (digest ([''wss://a/''], [(''kinds'', Nums [1, 6])])
        = digest ([''wss://a/''], [(''kinds'', Nums [6, 1])]))
   \<and> generateTimelineKey (\<lambda>p. concat (fst p) @ concat (map entry_text (snd p)))
        [''wss://a/''] [(''kinds'', Nums [1, 6])] = ''wss://a/kinds,1,6''
   \<and> generateTimelineKey (\<lambda>p. concat (fst p) @ concat (map entry_text (snd p)))
        [''wss://a/''] [(''kinds'', Nums [6, 1])] = ''wss://a/kinds,6,1''"
  by (simp add: stableFilter_kinds generateTimelineKey_def entry_text_kinds_16 entry_text_kinds_61)

end
